theory Spec2Isabelle
  imports Main "HOL-Library.Word" "HOL-Library.Monad_Syntax"
begin

unbundle bit_operations_syntax

section \<open>Buffer and block descriptors (include/spark/block.h)\<close>

text \<open>
  The flag words are \<open>uint32_t\<close>, modelled as \<open>32 word\<close>. The enumerators of
  \<open>enum spark_buffer_flags\<close>, \<open>enum spark_block_type\<close> are written with the shifts
  of the header.
\<close>

type_synonym u32 = "32 word"

definition SPARK_FMT_INVALID :: u32 where "SPARK_FMT_INVALID = 0x00"

definition SPARK_FMT_I16 :: u32 where "SPARK_FMT_I16 = 0x01"

definition SPARK_FMT_I32 :: u32 where "SPARK_FMT_I32 = 0x02"

definition SPARK_FMT_F32 :: u32 where "SPARK_FMT_F32 = 0x03"

definition SPARK_FMT_F64 :: u32 where "SPARK_FMT_F64 = 0x04"

definition SPARK_FMT_MASK :: u32 where "SPARK_FMT_MASK = 0x0F"

definition SPARK_LAYOUT_INVALID :: u32 where "SPARK_LAYOUT_INVALID = push_bit 4 0x0"

definition SPARK_LAYOUT_INTERLEAVED :: u32 where "SPARK_LAYOUT_INTERLEAVED = push_bit 4 0x1"

definition SPARK_LAYOUT_PLANAR :: u32 where "SPARK_LAYOUT_PLANAR = push_bit 4 0x2"

definition SPARK_LAYOUT_MASK :: u32 where "SPARK_LAYOUT_MASK = push_bit 4 0x0F"

definition SPARK_BLOCK_INVALID :: u32 where "SPARK_BLOCK_INVALID = 0"

definition SPARK_BLOCK_PROCESS :: u32 where "SPARK_BLOCK_PROCESS = push_bit 8 0x1"

definition SPARK_BLOCK_CONVERT :: u32 where "SPARK_BLOCK_CONVERT = push_bit 8 0x2"

definition SPARK_BLOCK_SOURCE :: u32 where "SPARK_BLOCK_SOURCE = push_bit 8 0x3"

definition SPARK_BLOCK_SINK :: u32 where "SPARK_BLOCK_SINK = push_bit 8 0x4"

definition SPARK_BLOCK_TYPE_MASK :: u32 where "SPARK_BLOCK_TYPE_MASK = push_bit 8 0x7"

text \<open>\<open>enum spark_block_error\<close>; the functions return \<open>int\<close>.\<close>

definition SPARK_NOERROR :: int where "SPARK_NOERROR = 0"

definition SPARK_ERR_INVALID_PARAM :: int where "SPARK_ERR_INVALID_PARAM = 1"

definition SPARK_ERR_INVALID_SIZE :: int where "SPARK_ERR_INVALID_SIZE = 2"

definition SPARK_ERR_INVALID_ABI :: int where "SPARK_ERR_INVALID_ABI = 3"

definition SPARK_ERR_INVALID_INPUT :: int where "SPARK_ERR_INVALID_INPUT = 4"

definition SPARK_ERR_INVALID_OUTPUT :: int where "SPARK_ERR_INVALID_OUTPUT = 5"

definition SPARK_ERR_INVALID_BLOCK :: int where "SPARK_ERR_INVALID_BLOCK = 6"

text \<open>
  Memory is an array of \<open>float\<close> cells; an address is the index of a cell and a pointer
  \<open>p + k\<close> is the address \<open>p + k\<close>. The null pointer is the address 0.
\<close>

type_synonym addr = nat

definition NULL :: addr where "NULL = 0"

record spark_buffer =
  base :: addr
  channels :: u32
  frames :: u32
  flags :: u32

record spark_block =
  abi_version :: u32
  struct_size :: u32
  "input" :: spark_buffer
  "output" :: spark_buffer

text \<open>
  What the build fixes and the sources under study do not: the macro
  \<open>SPARK_ABI_VERSION\<close> of \<open>spark/version.h\<close>, the value of
  \<open>sizeof(spark_block_t)\<close> on the target, and whether \<open>NDEBUG\<close> is defined (a release
  build, where \<open>assert\<close> expands to nothing).
\<close>

record build =
  SPARK_ABI_VERSION :: u32
  sizeof_spark_block_t :: nat
  NDEBUG :: bool

definition spark_buffer_get_layout :: "u32 \<Rightarrow> u32" where
  "spark_buffer_get_layout fl = fl AND SPARK_LAYOUT_MASK"

definition spark_buffer_get_format :: "u32 \<Rightarrow> u32" where
  "spark_buffer_get_format fl = fl AND SPARK_FMT_MASK"

definition spark_block_get_type :: "u32 \<Rightarrow> u32" where
  "spark_block_get_type fl = fl AND SPARK_BLOCK_TYPE_MASK"

text \<open>
  The helpers take pointers to descriptors that may be null: \<open>None\<close> is the null pointer.
  \<open>spark_buffer_is_similar\<close> first compares the two pointers; two equal non-null
  pointers name one descriptor, whose fields are equal, so the comparison of the
  fields gives the same answer there, and two null pointers are similar.
\<close>

definition spark_buffer_is_similar :: "spark_buffer option \<Rightarrow> spark_buffer option \<Rightarrow> bool" where
  "spark_buffer_is_similar a b =
     (case a of
        None \<Rightarrow> (case b of None \<Rightarrow> True | Some y \<Rightarrow> False)
      | Some x \<Rightarrow>
          (case b of
             None \<Rightarrow> False
           | Some y \<Rightarrow>
               spark_buffer_get_format (flags x) = spark_buffer_get_format (flags y) \<and>
               spark_buffer_get_layout (flags x) = spark_buffer_get_layout (flags y) \<and>
               channels x = channels y \<and> frames x = frames y))"

definition spark_buffer_is_valid :: "spark_buffer option \<Rightarrow> bool" where
  "spark_buffer_is_valid buf =
     (case buf of
        None \<Rightarrow> False
      | Some x \<Rightarrow> base x \<noteq> NULL \<and> 0 < channels x \<and> 0 < frames x)"

definition spark_buffer_check_type :: "spark_buffer option \<Rightarrow> u32 \<Rightarrow> u32 \<Rightarrow> bool" where
  "spark_buffer_check_type buf fmt layout =
     (case buf of
        None \<Rightarrow> False
      | Some x \<Rightarrow>
          spark_buffer_get_format (flags x) = fmt \<and>
          spark_buffer_get_layout (flags x) = layout)"

section \<open>Block validation (lib/block.c)\<close>

text \<open>
  \<open>p_block\<close> may be null. The comparison of \<open>struct_size\<close> with \<open>sizeof\<close> is
  unsigned, in \<open>size_t\<close>. \<open>&block->input\<close> and \<open>&block->output\<close> are never null.
\<close>

definition spark_block_validate :: "build \<Rightarrow> spark_block option \<Rightarrow> u32 \<Rightarrow> int" where
  "spark_block_validate cfg p_block fl =
     (case p_block of
        None \<Rightarrow> SPARK_ERR_INVALID_PARAM
      | Some block \<Rightarrow>
          if unat (struct_size block) < sizeof_spark_block_t cfg then SPARK_ERR_INVALID_SIZE
          else if abi_version block = SPARK_ABI_VERSION cfg then
            (let req_fmt = spark_buffer_get_format fl;
                 req_layout = spark_buffer_get_layout fl;
                 block_type = spark_block_get_type fl
             in
             if req_fmt = SPARK_FMT_INVALID \<or> req_layout = SPARK_LAYOUT_INVALID \<or>
                block_type = SPARK_BLOCK_INVALID
             then SPARK_ERR_INVALID_PARAM
             else if block_type = SPARK_BLOCK_PROCESS then
               (if spark_buffer_is_similar (Some (input block)) (Some (output block)) then
                  (if spark_buffer_is_valid (Some (input block)) then
                     (if spark_buffer_is_valid (Some (output block)) then
                        (if spark_buffer_check_type (Some (input block)) req_fmt req_layout then
                           (if spark_buffer_check_type (Some (output block)) req_fmt req_layout
                            then SPARK_NOERROR
                            else SPARK_ERR_INVALID_OUTPUT)
                         else SPARK_ERR_INVALID_INPUT)
                      else SPARK_ERR_INVALID_OUTPUT)
                   else SPARK_ERR_INVALID_INPUT)
                else SPARK_ERR_INVALID_BLOCK)
             else if block_type = SPARK_BLOCK_CONVERT then
               (if spark_buffer_is_valid (Some (input block)) then
                  (if spark_buffer_is_valid (Some (output block)) then
                     (if spark_buffer_check_type (Some (input block)) req_fmt req_layout
                      then SPARK_NOERROR
                      else SPARK_ERR_INVALID_INPUT)
                   else SPARK_ERR_INVALID_OUTPUT)
                else SPARK_ERR_INVALID_INPUT)
             else if block_type = SPARK_BLOCK_SOURCE then
               (if spark_buffer_is_valid (Some (output block)) then
                  (if spark_buffer_check_type (Some (output block)) req_fmt req_layout
                   then SPARK_NOERROR
                   else SPARK_ERR_INVALID_OUTPUT)
                else SPARK_ERR_INVALID_OUTPUT)
             else if block_type = SPARK_BLOCK_SINK then
               (if spark_buffer_is_valid (Some (input block)) then
                  (if spark_buffer_check_type (Some (input block)) req_fmt req_layout
                   then SPARK_NOERROR
                   else SPARK_ERR_INVALID_INPUT)
                else SPARK_ERR_INVALID_INPUT)
             else SPARK_ERR_INVALID_BLOCK)
          else SPARK_ERR_INVALID_ABI)"

section \<open>The rules of the specification, for comparison\<close>

text \<open>
  The per-type rules of the specification (section 4.2, step 5), written from its words:
  Process needs similar, valid and correctly typed buffers; Convert a valid, correctly
  typed input and a valid output; Source a valid, correctly typed output; Sink a valid,
  correctly typed input; no other type passes.
\<close>

definition block_rules_ok :: "spark_block \<Rightarrow> u32 \<Rightarrow> bool" where
  "block_rules_ok b fl =
     (let req_fmt = spark_buffer_get_format fl;
          req_layout = spark_buffer_get_layout fl;
          ty = spark_block_get_type fl;
          bi = Some (input b); bo = Some (output b)
      in if ty = SPARK_BLOCK_PROCESS then
           spark_buffer_is_similar bi bo \<and> spark_buffer_is_valid bi \<and> spark_buffer_is_valid bo \<and>
           spark_buffer_check_type bi req_fmt req_layout \<and>
           spark_buffer_check_type bo req_fmt req_layout
         else if ty = SPARK_BLOCK_CONVERT then
           spark_buffer_is_valid bi \<and> spark_buffer_check_type bi req_fmt req_layout \<and>
           spark_buffer_is_valid bo
         else if ty = SPARK_BLOCK_SOURCE then
           spark_buffer_is_valid bo \<and> spark_buffer_check_type bo req_fmt req_layout
         else if ty = SPARK_BLOCK_SINK then
           spark_buffer_is_valid bi \<and> spark_buffer_check_type bi req_fmt req_layout
         else False)"

section \<open>Concrete inputs\<close>

text \<open>A build of an LP64 target, and descriptors to evaluate the functions on.\<close>

definition ex_build :: build where
  "ex_build = \<lparr>SPARK_ABI_VERSION = 1, sizeof_spark_block_t = 56, NDEBUG = True\<rparr>"

definition ex_buffer :: "addr \<Rightarrow> u32 \<Rightarrow> u32 \<Rightarrow> u32 \<Rightarrow> spark_buffer" where
  "ex_buffer p c n fl = \<lparr>base = p, channels = c, frames = n, flags = fl\<rparr>"

definition ex_block :: "u32 \<Rightarrow> u32 \<Rightarrow> spark_buffer \<Rightarrow> spark_buffer \<Rightarrow> spark_block" where
  "ex_block a s bi bo = \<lparr>abi_version = a, struct_size = s, input = bi, output = bo\<rparr>"

datatype f32 = F32 (sign: bool) (expo: "8 word") (frac: "23 word")

definition is_nan :: "f32 \<Rightarrow> bool" where
  "is_nan x = (expo x = 255 \<and> frac x \<noteq> 0)"

definition is_inf :: "f32 \<Rightarrow> bool" where
  "is_inf x = (expo x = 255 \<and> frac x = 0)"

definition is_zero :: "f32 \<Rightarrow> bool" where
  "is_zero x = (expo x = 0 \<and> frac x = 0)"

definition is_finite :: "f32 \<Rightarrow> bool" where
  "is_finite x = (expo x \<noteq> 255)"

definition significand :: "f32 \<Rightarrow> nat" where
  "significand x = (if expo x = 0 then unat (frac x) else 2 ^ 23 + unat (frac x))"

definition exponent :: "f32 \<Rightarrow> int" where
  "exponent x = (if expo x = 0 then - 149 else int (unat (expo x)) - 150)"

definition default_nan :: f32 where
  "default_nan = F32 False 255 (2 ^ 22)"

definition infinity :: "bool \<Rightarrow> f32" where
  "infinity s = F32 s 255 0"

definition zero :: "bool \<Rightarrow> f32" where
  "zero s = F32 s 0 0"

fun bit_width :: "nat \<Rightarrow> nat" where
  "bit_width n = (if n = 0 then 0 else Suc (bit_width (n div 2)))"

declare bit_width.simps [simp del]

definition round_shift :: "nat \<Rightarrow> nat \<Rightarrow> nat" where
  "round_shift m k =
     (let q = m div 2 ^ k; r = m mod 2 ^ k
      in if 2 ^ k < 2 * r \<or> (2 * r = 2 ^ k \<and> odd q) then q + 1 else q)"

definition pack :: "bool \<Rightarrow> nat \<Rightarrow> int \<Rightarrow> f32" where
  "pack s n q =
     (if n < 2 ^ 23 then F32 s 0 (of_nat n)
      else if 255 \<le> q + 150 then infinity s
      else F32 s (of_nat (nat (q + 150))) (of_nat (n - 2 ^ 23)))"

definition round_f32 :: "bool \<Rightarrow> nat \<Rightarrow> int \<Rightarrow> f32" where
  "round_f32 s m e =
     (let q = max (e + int (bit_width m) - 24) (- 149);
          n = (if q \<le> e then m * 2 ^ nat (e - q) else round_shift m (nat (q - e)))
      in if n = 2 ^ 24 then pack s (2 ^ 23) (q + 1) else pack s n q)"

definition signed_significand :: "f32 \<Rightarrow> int" where
  "signed_significand x = (if sign x then - int (significand x) else int (significand x))"

definition fadd :: "f32 \<Rightarrow> f32 \<Rightarrow> f32" where
  "fadd a b =
     (if is_nan a \<or> is_nan b then default_nan
      else if is_inf a then (if is_inf b \<and> sign a \<noteq> sign b then default_nan else a)
      else if is_inf b then b
      else
        (let e = min (exponent a) (exponent b);
             m = signed_significand a * 2 ^ nat (exponent a - e) +
                 signed_significand b * 2 ^ nat (exponent b - e)
         in if m = 0 then zero (sign a \<and> sign b)
            else round_f32 (m < 0) (nat \<bar>m\<bar>) e))"

definition fmul :: "f32 \<Rightarrow> f32 \<Rightarrow> f32" where
  "fmul a b =
     (if is_nan a \<or> is_nan b then default_nan
      else if is_inf a \<or> is_inf b then
        (if is_zero a \<or> is_zero b then default_nan else infinity (sign a \<noteq> sign b))
      else
        (let m = significand a * significand b
         in if m = 0 then zero (sign a \<noteq> sign b)
            else round_f32 (sign a \<noteq> sign b) m (exponent a + exponent b)))"

definition one :: f32 where "one = F32 False 127 0"

type_synonym heap = "addr \<Rightarrow> f32 option"

definition load :: "heap \<Rightarrow> addr \<Rightarrow> f32 option" where
  "load h p = (if p = NULL then None else h p)"

definition store :: "heap \<Rightarrow> addr \<Rightarrow> f32 \<Rightarrow> heap option" where
  "store h p v = (if p = NULL \<or> h p = None then None else Some (h(p := Some v)))"

definition SPARK_SOSFILT_INDEPENDENT_SOS :: u32 where "SPARK_SOSFILT_INDEPENDENT_SOS = 0"

definition SPARK_SOSFILT_SHARE_SOS :: u32 where "SPARK_SOSFILT_SHARE_SOS = 1"

record spark_sosfilt_f32_t =
  header :: spark_block
  coefficients :: addr
  states :: addr
  n_stages :: u32
  sos_flags :: u32

type_synonym coeffs = "f32 \<times> f32 \<times> f32 \<times> f32 \<times> f32"

function biquad_frames ::
  "coeffs \<Rightarrow> addr \<Rightarrow> addr \<Rightarrow> nat \<Rightarrow> nat \<Rightarrow> f32 \<Rightarrow> f32 \<Rightarrow> heap \<Rightarrow> (f32 \<times> f32 \<times> heap) option"
where
  "biquad_frames (b0, b1, b2, a1, a2) outp inp nframes i s1 s2 h =
     (if i < nframes then
        do {
          x \<leftarrow> load h (inp + i);
          let y = fadd (fmul b0 x) s1;
          let s1' = fadd (fadd (fmul b1 x) (fmul a1 y)) s2;
          let s2' = fadd (fmul b2 x) (fmul a2 y);
          h' \<leftarrow> store h (outp + i) y;
          biquad_frames (b0, b1, b2, a1, a2) outp inp nframes (i + 1) s1' s2' h'
        }
      else Some (s1, s2, h))"
  by pat_completeness auto

termination
  by (relation "measure (\<lambda>(c, outp, inp, nframes, i, s1, s2, h). nframes - i)") auto

declare biquad_frames.simps [simp del]

definition biquad_process_f32 :: "addr \<Rightarrow> addr \<Rightarrow> addr \<Rightarrow> addr \<Rightarrow> nat \<Rightarrow> heap \<Rightarrow> heap option" where
  "biquad_process_f32 coeff state outp inp nframes h =
     do {
       b0 \<leftarrow> load h (coeff + 0);
       b1 \<leftarrow> load h (coeff + 1);
       b2 \<leftarrow> load h (coeff + 2);
       a1 \<leftarrow> load h (coeff + 3);
       a2 \<leftarrow> load h (coeff + 4);
       s1 \<leftarrow> load h (state + 0);
       s2 \<leftarrow> load h (state + 1);
       (s1', s2', h') \<leftarrow> biquad_frames (b0, b1, b2, a1, a2) outp inp nframes 0 s1 s2 h;
       h'' \<leftarrow> store h' (state + 0) s1';
       store h'' (state + 1) s2'
     }"

function stage_loop ::
  "addr \<Rightarrow> nat \<Rightarrow> nat \<Rightarrow> nat \<Rightarrow> addr \<Rightarrow> addr \<Rightarrow> addr \<Rightarrow> heap \<Rightarrow> (addr \<times> addr \<times> heap) option"
where
  "stage_loop outp nframes nstages stage coeff sts inp h =
     (if stage < nstages then
        do {
          h' \<leftarrow> biquad_process_f32 coeff sts outp inp nframes h;
          stage_loop outp nframes nstages (stage + 1) (coeff + 5) (sts + 2) outp h'
        }
      else Some (coeff, sts, h))"
  by pat_completeness auto

termination
  by (relation "measure (\<lambda>(outp, nframes, nstages, stage, coeff, sts, inp, h). nstages - stage)")
    auto

declare stage_loop.simps [simp del]

definition mul_u32 :: "nat \<Rightarrow> nat \<Rightarrow> nat" where
  "mul_u32 a b = (a * b) mod 2 ^ 32"

function chan_loop ::
  "spark_sosfilt_f32_t \<Rightarrow> nat \<Rightarrow> nat \<Rightarrow> nat \<Rightarrow> bool \<Rightarrow> addr \<Rightarrow> addr \<Rightarrow>
     nat \<Rightarrow> addr \<Rightarrow> addr \<Rightarrow> heap \<Rightarrow> heap option"
where
  "chan_loop self nchan nframes nstages share_sos inp outp chan coeff sts h =
     (if chan < nchan then
        do {
          let in_plane = inp + mul_u32 chan nframes;
          let out_plane = outp + mul_u32 chan nframes;
          let coeff = (if share_sos then coefficients self else coeff);
          (coeff', sts', h') \<leftarrow> stage_loop out_plane nframes nstages 0 coeff sts in_plane h;
          chan_loop self nchan nframes nstages share_sos inp outp (chan + 1) coeff' sts' h'
        }
      else Some h)"
  by pat_completeness auto

termination
  by (relation "measure (\<lambda>(self, nchan, nframes, nstages, share_sos, inp, outp, chan, coeff,
      sts, h). nchan - chan)") auto

declare chan_loop.simps [simp del]

datatype outcome = Returned heap | Assertion_Failed | Invalid_Access

definition spark_sosfilt_f32 :: "build \<Rightarrow> spark_sosfilt_f32_t option \<Rightarrow> heap \<Rightarrow> outcome" where
  "spark_sosfilt_f32 cfg self h =
     (if \<not> NDEBUG cfg \<and> self = None then Assertion_Failed
      else
        let status = spark_block_validate cfg (map_option header self)
                       (SPARK_FMT_F32 OR SPARK_LAYOUT_PLANAR OR SPARK_BLOCK_PROCESS)
        in
        if \<not> NDEBUG cfg \<and> status \<noteq> SPARK_NOERROR then Assertion_Failed
        else if status \<noteq> SPARK_NOERROR then Returned h
        else
          (case self of
             None \<Rightarrow> Returned h
           | Some f \<Rightarrow>
               if \<not> NDEBUG cfg \<and>
                  \<not> (coefficients f \<noteq> NULL \<and> states f \<noteq> NULL \<and> 0 < n_stages f)
               then Assertion_Failed
               else
                 let nchan = unat (channels (input (header f)));
                     nframes = unat (frames (input (header f)));
                     nstages = unat (n_stages f);
                     share_sos = (sos_flags f AND SPARK_SOSFILT_SHARE_SOS \<noteq> 0);
                     coeff = coefficients f;
                     inp = base (input (header f));
                     outp = base (output (header f));
                     sts = states f
                 in
                 if \<not> NDEBUG cfg \<and> \<not> (inp \<noteq> NULL \<and> outp \<noteq> NULL) then Assertion_Failed
                 else
                   (case chan_loop f nchan nframes nstages share_sos inp outp 0 coeff sts h of
                      None \<Rightarrow> Invalid_Access
                    | Some h' \<Rightarrow> Returned h')))"

fun tdf2 :: "coeffs \<Rightarrow> f32 \<times> f32 \<Rightarrow> f32 list \<Rightarrow> f32 list \<times> (f32 \<times> f32)" where
  "tdf2 c w [] = ([], w)"
| "tdf2 (b0, b1, b2, na1, na2) (w1, w2) (x # xs) =
     (let y = fadd (fmul b0 x) w1;
          w1' = fadd (fadd (fmul b1 x) (fmul na1 y)) w2;
          w2' = fadd (fmul b2 x) (fmul na2 y);
          (ys, w') = tdf2 (b0, b1, b2, na1, na2) (w1', w2') xs
      in (y # ys, w'))"

definition cells :: "heap \<Rightarrow> addr \<Rightarrow> f32 list \<Rightarrow> bool" where
  "cells h p xs = (map (load h) [p ..< p + length xs] = map Some xs)"

definition allocated :: "heap \<Rightarrow> addr \<Rightarrow> nat \<Rightarrow> bool" where
  "allocated h p n = list_all (\<lambda>a. load h a \<noteq> None) [p ..< p + n]"

definition poke :: "heap \<Rightarrow> addr \<Rightarrow> f32 list \<Rightarrow> heap" where
  "poke h p xs = (\<lambda>a. if p \<le> a \<and> a < p + length xs then Some (xs ! (a - p)) else h a)"

definition coeff_offset :: "bool \<Rightarrow> nat \<Rightarrow> nat \<Rightarrow> nat \<Rightarrow> nat" where
  "coeff_offset shared S c s = (if shared then 5 * s else 5 * (c * S + s))"

definition state_offset :: "nat \<Rightarrow> nat \<Rightarrow> nat \<Rightarrow> nat" where
  "state_offset S c s = 2 * (c * S + s)"

fun run_sections :: "(heap \<Rightarrow> heap option) list \<Rightarrow> heap \<Rightarrow> heap option" where
  "run_sections [] h = Some h"
| "run_sections (f # fs) h = f h \<bind> run_sections fs"

definition section_call :: "spark_sosfilt_f32_t \<Rightarrow> nat \<Rightarrow> nat \<Rightarrow> heap \<Rightarrow> heap option" where
  "section_call f c s =
     (let C = unat (channels (input (header f)));
          n = unat (frames (input (header f)));
          S = unat (n_stages f);
          shared = (sos_flags f AND SPARK_SOSFILT_SHARE_SOS \<noteq> 0);
          in_plane = base (input (header f)) + mul_u32 c n;
          out_plane = base (output (header f)) + mul_u32 c n
      in biquad_process_f32
           (coefficients f + coeff_offset shared S c s)
           (states f + state_offset S c s)
           out_plane (if s = 0 then in_plane else out_plane) n)"

definition sosfilt_plan :: "spark_sosfilt_f32_t \<Rightarrow> (heap \<Rightarrow> heap option) list" where
  "sosfilt_plan f =
     concat (map (\<lambda>c. map (\<lambda>s. section_call f c s) [0 ..< unat (n_stages f)])
                 [0 ..< unat (channels (input (header f)))])"

definition kernel_flags :: u32 where
  "kernel_flags = SPARK_FMT_F32 OR SPARK_LAYOUT_PLANAR OR SPARK_BLOCK_PROCESS"

fun cascade :: "coeffs list \<Rightarrow> (f32 \<times> f32) list \<Rightarrow> f32 list \<Rightarrow> f32 list \<times> (f32 \<times> f32) list" where
  "cascade (c # cs) (w # ws) xs =
     (let (ys, w') = tdf2 c w xs; (zs, ws') = cascade cs ws ys in (zs, w' # ws'))"
| "cascade cs ws xs = (xs, [])"

fun flat5 :: "coeffs list \<Rightarrow> f32 list" where
  "flat5 [] = []"
| "flat5 ((b0, b1, b2, na1, na2) # cs) = b0 # b1 # b2 # na1 # na2 # flat5 cs"

fun flat2 :: "(f32 \<times> f32) list \<Rightarrow> f32 list" where
  "flat2 [] = []"
| "flat2 ((w1, w2) # ws) = w1 # w2 # flat2 ws"

definition disjoint :: "addr \<Rightarrow> nat \<Rightarrow> addr \<Rightarrow> nat \<Rightarrow> bool" where
  "disjoint p n q m = (p + n \<le> q \<or> q + m \<le> p)"

fun sos_planes ::
  "coeffs list list \<Rightarrow> (f32 \<times> f32) list list \<Rightarrow> f32 list list \<Rightarrow> (f32 list \<times> (f32 \<times> f32) list) list"
where
  "sos_planes (cs # css) (ws # wss) (xs # xss) = cascade cs ws xs # sos_planes css wss xss"
| "sos_planes css wss xss = []"

definition sos_output :: "coeffs list list \<Rightarrow> (f32 \<times> f32) list list \<Rightarrow> f32 list list \<Rightarrow> f32 list" where
  "sos_output css wss xss = concat (map fst (sos_planes css wss xss))"

definition sos_states :: "coeffs list list \<Rightarrow> (f32 \<times> f32) list list \<Rightarrow> f32 list list \<Rightarrow> f32 list" where
  "sos_states css wss xss = concat (map (\<lambda>r. flat2 (snd r)) (sos_planes css wss xss))"

definition ex_filter ::
  "spark_buffer \<Rightarrow> spark_buffer \<Rightarrow> addr \<Rightarrow> addr \<Rightarrow> u32 \<Rightarrow> u32 \<Rightarrow> spark_sosfilt_f32_t" where
  "ex_filter bi bo co st ns fl =
     \<lparr>header = ex_block 1 56 bi bo, coefficients = co, states = st, n_stages = ns,
      sos_flags = fl\<rparr>"

definition ex_heap :: "f32 list \<Rightarrow> heap" where
  "ex_heap xs = poke (\<lambda>a. None) 1 xs"

definition half :: f32 where "half = F32 False 126 0"
definition quarter :: f32 where "quarter = F32 False 125 0"
definition two :: f32 where "two = F32 False 128 0"
definition minus_half :: f32 where "minus_half = F32 True 126 0"

section \<open>Properties of the validation\<close>

lemmas status_defs = SPARK_NOERROR_def SPARK_ERR_INVALID_PARAM_def SPARK_ERR_INVALID_SIZE_def
  SPARK_ERR_INVALID_ABI_def SPARK_ERR_INVALID_INPUT_def SPARK_ERR_INVALID_OUTPUT_def
  SPARK_ERR_INVALID_BLOCK_def

text \<open>
  Claim C4. \<open>spark_block_validate\<close> applies its gates in order and the first failure
  decides: 1 for a null block pointer; else 2 when the declared structure size is below
  \<open>sizeof(spark_block_t)\<close>; else 3 when the ABI version differs; else 1 when the
  required flags decode to the invalid format, the invalid layout or the invalid block
  type; and it returns 0 exactly when all four gates and the rules of the block type hold.
\<close>

theorem validate_gates:
  "spark_block_validate cfg None fl = 1 \<and>
   (unat (struct_size b) < sizeof_spark_block_t cfg \<longrightarrow>
      spark_block_validate cfg (Some b) fl = 2) \<and>
   (sizeof_spark_block_t cfg \<le> unat (struct_size b) \<and> abi_version b \<noteq> SPARK_ABI_VERSION cfg \<longrightarrow>
      spark_block_validate cfg (Some b) fl = 3) \<and>
   (sizeof_spark_block_t cfg \<le> unat (struct_size b) \<and> abi_version b = SPARK_ABI_VERSION cfg \<and>
    (spark_buffer_get_format fl = SPARK_FMT_INVALID \<or>
     spark_buffer_get_layout fl = SPARK_LAYOUT_INVALID \<or>
     spark_block_get_type fl = SPARK_BLOCK_INVALID) \<longrightarrow>
      spark_block_validate cfg (Some b) fl = 1) \<and>
   (spark_block_validate cfg (Some b) fl = 0 \<longleftrightarrow>
      sizeof_spark_block_t cfg \<le> unat (struct_size b) \<and> abi_version b = SPARK_ABI_VERSION cfg \<and>
      spark_buffer_get_format fl \<noteq> SPARK_FMT_INVALID \<and>
      spark_buffer_get_layout fl \<noteq> SPARK_LAYOUT_INVALID \<and>
      spark_block_get_type fl \<noteq> SPARK_BLOCK_INVALID \<and> block_rules_ok b fl)"
  by (auto simp: spark_block_validate_def status_defs block_rules_ok_def Let_def)

lemmas flag_defs = SPARK_FMT_INVALID_def SPARK_FMT_I16_def SPARK_FMT_I32_def SPARK_FMT_F32_def
  SPARK_FMT_F64_def SPARK_FMT_MASK_def SPARK_LAYOUT_INVALID_def SPARK_LAYOUT_INTERLEAVED_def
  SPARK_LAYOUT_PLANAR_def SPARK_LAYOUT_MASK_def SPARK_BLOCK_INVALID_def SPARK_BLOCK_PROCESS_def
  SPARK_BLOCK_CONVERT_def SPARK_BLOCK_SOURCE_def SPARK_BLOCK_SINK_def SPARK_BLOCK_TYPE_MASK_def
  spark_buffer_get_format_def spark_buffer_get_layout_def spark_block_get_type_def

lemmas ex_defs = ex_build_def ex_buffer_def ex_block_def

theorem validate_gates_witness:
  "spark_block_validate ex_build None 0x123 = 1 \<and>
   spark_block_validate ex_build
     (Some (ex_block 1 55 (ex_buffer 8 2 4 0x23) (ex_buffer 8 2 4 0x23))) 0x123 = 2 \<and>
   spark_block_validate ex_build
     (Some (ex_block 2 56 (ex_buffer 8 2 4 0x23) (ex_buffer 8 2 4 0x23))) 0x123 = 3 \<and>
   spark_block_validate ex_build
     (Some (ex_block 1 56 (ex_buffer 8 2 4 0x23) (ex_buffer 8 2 4 0x23))) 0x103 = 1 \<and>
   spark_block_validate ex_build
     (Some (ex_block 1 56 (ex_buffer 8 2 4 0x23) (ex_buffer 8 2 4 0x23))) 0x123 = 0"
  using validate_gates [where cfg = ex_build and fl = "0x123" and b = "ex_block 1 55 (ex_buffer 8 2 4 0x23) (ex_buffer 8 2 4 0x23)"]
    validate_gates [where cfg = ex_build and fl = "0x123" and b = "ex_block 2 56 (ex_buffer 8 2 4 0x23) (ex_buffer 8 2 4 0x23)"]
    validate_gates [where cfg = ex_build and fl = "0x103" and b = "ex_block 1 56 (ex_buffer 8 2 4 0x23) (ex_buffer 8 2 4 0x23)"]
    validate_gates [where cfg = ex_build and fl = "0x123" and b = "ex_block 1 56 (ex_buffer 8 2 4 0x23) (ex_buffer 8 2 4 0x23)"]
  by (simp add: ex_defs flag_defs block_rules_ok_def spark_buffer_is_similar_def
      spark_buffer_is_valid_def spark_buffer_check_type_def NULL_def)

text \<open>
  Claim C7. For a block that passes the null, size, ABI and flags gates, validated as a
  Process block, a difference between input and output in channel count or in frame count
  gives 6 (invalid block), whatever else holds of the two buffers.
\<close>

theorem process_shape_mismatch:
  assumes "sizeof_spark_block_t cfg \<le> unat (struct_size b)"
    and "abi_version b = SPARK_ABI_VERSION cfg"
    and "spark_buffer_get_format fl \<noteq> SPARK_FMT_INVALID"
    and "spark_buffer_get_layout fl \<noteq> SPARK_LAYOUT_INVALID"
    and "spark_block_get_type fl = SPARK_BLOCK_PROCESS"
    and "channels (input b) \<noteq> channels (output b) \<or> frames (input b) \<noteq> frames (output b)"
  shows "spark_block_validate cfg (Some b) fl = 6"
  using assms
  by (auto simp: spark_block_validate_def status_defs Let_def spark_buffer_is_similar_def
      SPARK_BLOCK_INVALID_def SPARK_BLOCK_PROCESS_def)

theorem process_shape_mismatch_witness:
  "spark_buffer_is_valid (Some (ex_buffer 8 2 4 0x23)) \<and>
   spark_buffer_is_valid (Some (ex_buffer 40 2 5 0x23)) \<and>
   spark_buffer_check_type (Some (ex_buffer 8 2 4 0x23)) SPARK_FMT_F32 SPARK_LAYOUT_PLANAR \<and>
   spark_buffer_check_type (Some (ex_buffer 40 2 5 0x23)) SPARK_FMT_F32 SPARK_LAYOUT_PLANAR \<and>
   spark_block_validate ex_build
     (Some (ex_block 1 56 (ex_buffer 8 2 4 0x23) (ex_buffer 40 2 5 0x23))) 0x123 = 6"
  using process_shape_mismatch
    [where cfg = ex_build and fl = "0x123"
       and b = "ex_block 1 56 (ex_buffer 8 2 4 0x23) (ex_buffer 40 2 5 0x23)"]
  by (simp add: ex_defs flag_defs spark_buffer_is_valid_def spark_buffer_check_type_def NULL_def)

text \<open>
  Claim C8. For a block that passes the gates, validated as a Convert block, validation
  succeeds if and only if the input is valid and has the required format and layout and
  the output is valid; the flags of the output (its format and layout) do not change the
  result, and the frame counts are not compared.
\<close>

theorem convert_success_iff:
  assumes "sizeof_spark_block_t cfg \<le> unat (struct_size b)"
    and "abi_version b = SPARK_ABI_VERSION cfg"
    and "spark_buffer_get_format fl \<noteq> SPARK_FMT_INVALID"
    and "spark_buffer_get_layout fl \<noteq> SPARK_LAYOUT_INVALID"
    and "spark_block_get_type fl = SPARK_BLOCK_CONVERT"
  shows "(spark_block_validate cfg (Some b) fl = 0 \<longleftrightarrow>
            spark_buffer_is_valid (Some (input b)) \<and>
            spark_buffer_check_type (Some (input b))
              (spark_buffer_get_format fl) (spark_buffer_get_layout fl) \<and>
            spark_buffer_is_valid (Some (output b))) \<and>
         spark_block_validate cfg (Some (b\<lparr>output := (output b)\<lparr>flags := g\<rparr>\<rparr>)) fl =
           spark_block_validate cfg (Some b) fl"
  using assms
  by (auto simp: spark_block_validate_def status_defs Let_def spark_buffer_is_valid_def
      spark_buffer_check_type_def SPARK_BLOCK_INVALID_def SPARK_BLOCK_PROCESS_def
      SPARK_BLOCK_CONVERT_def)

theorem convert_success_iff_witness:
  "spark_block_validate ex_build
     (Some (ex_block 1 56 (ex_buffer 8 2 4 0x23) (ex_buffer 40 2 9 0xFFFFFFFF))) 0x223 = 0 \<and>
   spark_block_validate ex_build
     (Some (ex_block 1 56 (ex_buffer 8 2 4 0x23) (ex_buffer 40 2 9 0))) 0x223 = 0"
  using convert_success_iff
    [where cfg = ex_build and fl = "0x223" and g = 0
       and b = "ex_block 1 56 (ex_buffer 8 2 4 0x23) (ex_buffer 40 2 9 0xFFFFFFFF)"]
  by (simp add: ex_defs flag_defs spark_buffer_is_valid_def spark_buffer_check_type_def NULL_def)

text \<open>
  Claim C9. Two Sink blocks that differ only in the output descriptor get the same
  status, and two Source blocks that differ only in the input descriptor get the
  same status.
\<close>

theorem unused_side_ignored:
  "(spark_block_get_type fl = SPARK_BLOCK_SINK \<longrightarrow>
      spark_block_validate cfg (Some (b\<lparr>output := buf\<rparr>)) fl =
      spark_block_validate cfg (Some b) fl) \<and>
   (spark_block_get_type fl = SPARK_BLOCK_SOURCE \<longrightarrow>
      spark_block_validate cfg (Some (b\<lparr>input := buf\<rparr>)) fl =
      spark_block_validate cfg (Some b) fl)"
  by (auto simp: spark_block_validate_def Let_def SPARK_BLOCK_INVALID_def SPARK_BLOCK_PROCESS_def
      SPARK_BLOCK_CONVERT_def SPARK_BLOCK_SOURCE_def SPARK_BLOCK_SINK_def)

theorem unused_side_ignored_witness:
  "spark_block_validate ex_build
     (Some (ex_block 1 56 (ex_buffer 8 2 4 0x23) (ex_buffer 0 0 0 0))) 0x423 = 0 \<and>
   spark_block_validate ex_build
     (Some (ex_block 1 56 (ex_buffer 0 0 0 0) (ex_buffer 8 2 4 0x23))) 0x323 = 0"
  using unused_side_ignored
    [where cfg = ex_build and fl = "0x423" and buf = "ex_buffer 0 0 0 0"
       and b = "ex_block 1 56 (ex_buffer 8 2 4 0x23) (ex_buffer 8 2 4 0x23)"]
    unused_side_ignored
    [where cfg = ex_build and fl = "0x323" and buf = "ex_buffer 0 0 0 0"
       and b = "ex_block 1 56 (ex_buffer 8 2 4 0x23) (ex_buffer 8 2 4 0x23)"]
  by (simp add: ex_defs flag_defs spark_block_validate_def status_defs
      spark_buffer_is_valid_def spark_buffer_check_type_def NULL_def)

lemma field_of_low_bits:
  "spark_buffer_get_format fl = spark_buffer_get_format (fl AND 0x7FF)"
  "spark_buffer_get_layout fl = spark_buffer_get_layout (fl AND 0x7FF)"
  "spark_block_get_type fl = spark_block_get_type (fl AND 0x7FF)"
  by (simp_all add: flag_defs word_bw_assocs)

text \<open>
  Claim C10. Two required-flags words that agree on bits 0 to 10 give the same status on
  every block: the bits above the three fields are never read.
\<close>

theorem high_flag_bits_ignored:
  assumes "fl AND 0x7FF = fl' AND 0x7FF"
  shows "spark_block_validate cfg p fl = spark_block_validate cfg p fl'"
proof -
  have fields: "spark_buffer_get_format fl = spark_buffer_get_format fl'"
    "spark_buffer_get_layout fl = spark_buffer_get_layout fl'"
    "spark_block_get_type fl = spark_block_get_type fl'"
    using assms field_of_low_bits [of fl] field_of_low_bits [of fl'] by simp_all
  show ?thesis
    unfolding spark_block_validate_def fields by (rule refl)
qed

theorem high_flag_bits_ignored_witness:
  "(0x123 :: u32) AND 0x7FF = 0xFFFFF923 AND 0x7FF \<and>
   spark_block_validate ex_build
     (Some (ex_block 1 56 (ex_buffer 8 2 4 0x23) (ex_buffer 8 2 4 0x23))) 0xFFFFF923 = 0"
  using high_flag_bits_ignored
    [where cfg = ex_build and fl = "0x123" and fl' = "0xFFFFF923"
       and p = "Some (ex_block 1 56 (ex_buffer 8 2 4 0x23) (ex_buffer 8 2 4 0x23))"]
  by (simp add: ex_defs flag_defs spark_block_validate_def status_defs
      spark_buffer_is_valid_def spark_buffer_check_type_def spark_buffer_is_similar_def NULL_def)

lemma bit_width_0 [simp]: "bit_width 0 = 0"
  by (simp add: bit_width.simps)

lemma bit_width_le_iff: "bit_width n \<le> k \<longleftrightarrow> n < 2 ^ k"
proof (induction k arbitrary: n)
  case 0
  then show ?case by (simp add: bit_width.simps [of n])
next
  case (Suc k)
  show ?case
  proof (cases "n = 0")
    case True
    then show ?thesis by simp
  next
    case False
    then have "bit_width n \<le> Suc k \<longleftrightarrow> bit_width (n div 2) \<le> k"
      by (simp add: bit_width.simps [of n])
    also have "\<dots> \<longleftrightarrow> n div 2 < 2 ^ k" by (rule Suc.IH)
    also have "\<dots> \<longleftrightarrow> n < 2 ^ Suc k" by auto
    finally show ?thesis .
  qed
qed

lemma bit_width_eqI: "2 ^ k \<le> n \<Longrightarrow> n < 2 ^ Suc k \<Longrightarrow> bit_width n = Suc k"
  using bit_width_le_iff [of n "Suc k"] bit_width_le_iff [of n k] by auto

lemma bit_width_double: "0 < n \<Longrightarrow> bit_width (2 * n) = Suc (bit_width n)"
  by (simp add: bit_width.simps [of "2 * n"])

lemma bit_width_shift: "0 < n \<Longrightarrow> bit_width (n * 2 ^ k) = bit_width n + k"
proof (induction k)
  case 0
  then show ?case by simp
next
  case (Suc k)
  have "bit_width (n * 2 ^ Suc k) = bit_width (2 * (n * 2 ^ k))"
    by (simp add: mult.commute mult.left_commute)
  also have "\<dots> = Suc (bit_width (n * 2 ^ k))"
    using Suc.prems by (intro bit_width_double) simp
  finally show ?case using Suc by simp
qed

lemma round_shift_exact: "round_shift (n * 2 ^ k) k = n"
  by (simp add: round_shift_def)

lemma unat_frac_less: "unat (frac x) < 2 ^ 23"
  using unsigned_less [of "frac x", where ?'a = nat] by simp

lemma unat_expo_less: "is_finite x \<Longrightarrow> unat (expo x) < 255"
proof -
  assume "is_finite x"
  then have "unat (expo x) \<noteq> unat (255 :: 8 word)"
    unfolding is_finite_def word_unat_eq_iff [symmetric] by simp 
  moreover have "unat (expo x) < 2 ^ 8" using unsigned_less [of "expo x", where ?'a = nat] by simp
  ultimately show ?thesis by simp
qed

lemma round_f32_exact:
  assumes fin: "is_finite x" and nz: "\<not> is_zero x"
  shows "round_f32 s (significand x * 2 ^ k) (exponent x - int k) = F32 s (expo x) (frac x)"
proof (cases "expo x = 0")
  case True
  define n where "n = unat (frac x)"
  have n: "0 < n" "n < 2 ^ 23"
    using nz True unat_frac_less [of x] by (simp_all add: n_def is_zero_def unat_gt_0)
  have sig: "significand x = n" and ex: "exponent x = - 149"
    using True by (simp_all add: significand_def exponent_def n_def)
  have "bit_width n \<le> 23" using n by (simp add: bit_width_le_iff)
  then have q: "max (- 149 - int k + int (bit_width (n * 2 ^ k)) - 24) (- 149) = - 149"
    using n by (simp add: bit_width_shift)
  have m: "(if (- 149 :: int) \<le> - 149 - int k then n * 2 ^ k * 2 ^ nat (- 149 - int k - (- 149))
            else round_shift (n * 2 ^ k) (nat (- 149 - (- 149 - int k)))) = n"
    by (simp add: round_shift_exact)
  have "round_f32 s (n * 2 ^ k) (- 149 - int k) = pack s n (- 149)"
    unfolding round_f32_def Let_def q m using n by simp
  also have "\<dots> = F32 s 0 (of_nat n)" using n by (simp add: pack_def)
  also have "\<dots> = F32 s (expo x) (frac x)" using True by (simp add: n_def)
  finally show ?thesis by (simp add: sig ex)
next
  case False
  define E where "E = unat (expo x)"
  define n where "n = 2 ^ 23 + unat (frac x)"
  have E: "0 < E" "E < 255"
    using False unat_expo_less [OF fin] by (auto simp: E_def unat_gt_0)
  have n: "2 ^ 23 \<le> n" "n < 2 ^ 24"
    using unat_frac_less [of x] by (simp_all add: n_def)
  have sig: "significand x = n" and ex: "exponent x = int E - 150"
    using False by (simp_all add: significand_def exponent_def n_def E_def)
  have "bit_width n = 24" using n bit_width_eqI [of 23 n] by simp
  then have q: "max (int E - 150 - int k + int (bit_width (n * 2 ^ k)) - 24) (- 149) = int E - 150"
    using n E by (simp add: bit_width_shift)
  have m: "(if int E - 150 \<le> int E - 150 - int k
            then n * 2 ^ k * 2 ^ nat (int E - 150 - int k - (int E - 150))
            else round_shift (n * 2 ^ k) (nat (int E - 150 - (int E - 150 - int k)))) = n"
    by (simp add: round_shift_exact)
  have "round_f32 s (n * 2 ^ k) (int E - 150 - int k) = pack s n (int E - 150)"
    unfolding round_f32_def Let_def q m using n by simp
  also have "\<dots> = F32 s (of_nat E) (of_nat (n - 2 ^ 23))" using n E by (simp add: pack_def)
  also have "\<dots> = F32 s (expo x) (frac x)" by (simp add: n_def E_def)
  finally show ?thesis by (simp add: sig ex)
qed

lemma fmul_one: "is_finite x \<Longrightarrow> fmul one x = x"
proof (cases "is_zero x")
  case True
  assume "is_finite x"
  with True show ?thesis
    by (cases x) (simp add: fmul_def one_def is_nan_def is_inf_def is_zero_def is_finite_def
        significand_def zero_def)
next
  case False
  assume fin: "is_finite x"
  have nz: "significand x \<noteq> 0"
    using False by (auto simp: significand_def is_zero_def unat_gt_0)
  have "fmul one x = round_f32 (sign x) (2 ^ 23 * significand x) (- 23 + exponent x)"
    using fin nz by (simp add: fmul_def one_def is_nan_def is_inf_def is_finite_def
        significand_def [of "F32 _ _ _"] exponent_def [of "F32 _ _ _"])
  also have "\<dots> = round_f32 (sign x) (significand x * 2 ^ 23) (exponent x - int 23)"
    by (simp add: mult.commute)
  also have "\<dots> = F32 (sign x) (expo x) (frac x)"
    using fin False by (rule round_f32_exact)
  finally show ?thesis by simp
qed

lemma exponent_ge: "- 149 \<le> exponent x"
proof (cases "expo x = 0")
  case True
  then show ?thesis by (simp add: exponent_def)
next
  case False
  then have "uint (expo x) \<noteq> 0" by (simp add: unsigned_eq_0_iff)
  moreover have "0 \<le> uint (expo x)" by simp
  ultimately have "1 \<le> uint (expo x)" by linarith
  then show ?thesis using False by (simp add: exponent_def)
qed

lemma fadd_zero_right:
  assumes fin: "is_finite x" and z: "is_zero z" and sg: "is_zero x \<and> sign x \<longrightarrow> sign z"
  shows "fadd x z = x"
proof (cases "is_zero x")
  case True
  with z sg show ?thesis
    by (cases x; cases z)
      (auto simp: fadd_def is_nan_def is_inf_def is_zero_def significand_def
        signed_significand_def zero_def)
next
  case False
  define k where "k = nat (exponent x + 149)"
  have k: "exponent x - int k = - 149"
    using exponent_ge [of x] by (simp add: k_def)
  have ez: "exponent z = - 149" and sz: "signed_significand z = 0"
    using z by (simp_all add: exponent_def signed_significand_def significand_def is_zero_def)
  have pos: "0 < significand x"
    using False by (auto simp: significand_def is_zero_def unat_gt_0)
  have e: "min (exponent x) (exponent z) = - 149"
    using exponent_ge [of x] by (simp add: ez)
  define m where "m = signed_significand x * 2 ^ k"
  have m0: "m \<noteq> 0" and mneg: "m < 0 \<longleftrightarrow> sign x"
    and mabs: "nat \<bar>m\<bar> = significand x * 2 ^ k"
    using pos
    by (auto simp: m_def signed_significand_def abs_mult nat_mult_distrib nat_power_eq
        mult_less_0_iff zero_less_mult_iff)
  have nonspecial: "\<not> is_nan x" "\<not> is_inf x" "\<not> is_nan z" "\<not> is_inf z"
    using fin z by (auto simp: is_nan_def is_inf_def is_finite_def is_zero_def)
  have "fadd x z = round_f32 (m < 0) (nat \<bar>m\<bar>) (- 149)"
    using nonspecial m0
    by (simp add: fadd_def e sz Let_def m_def k_def)
  also have "\<dots> = round_f32 (sign x) (significand x * 2 ^ k) (exponent x - int k)"
    by (simp add: mneg mabs k)
  also have "\<dots> = F32 (sign x) (expo x) (frac x)"
    using fin False by (rule round_f32_exact)
  finally show ?thesis by simp
qed

lemma fmul_zero_left: "is_zero z \<Longrightarrow> is_finite x \<Longrightarrow> is_zero (fmul z x)"
  by (auto simp: fmul_def is_nan_def is_inf_def is_zero_def is_finite_def significand_def zero_def)

lemma fadd_zeros: "is_zero a \<Longrightarrow> is_zero b \<Longrightarrow> is_zero (fadd a b)"
  by (auto simp: fadd_def is_nan_def is_inf_def is_zero_def signed_significand_def
      significand_def zero_def)

lemma cells_iff: "cells h p xs \<longleftrightarrow> (\<forall>i<length xs. load h (p + i) = Some (xs ! i))"
proof -
  have "cells h p xs \<longleftrightarrow>
          (\<forall>i<length xs. map (load h) [p ..< p + length xs] ! i = map Some xs ! i)"
    unfolding cells_def by (subst list_eq_iff_nth_eq) simp
  then show ?thesis by simp
qed

lemma allocated_iff: "allocated h p n \<longleftrightarrow> (\<forall>i<n. load h (p + i) \<noteq> None)"
  by (simp add: allocated_def list_all_length)

lemma cells_allocated: "cells h p xs \<Longrightarrow> allocated h p (length xs)"
  by (simp add: cells_iff allocated_iff)

lemma load_poke:
  "load (poke h p xs) a =
     (if a = NULL then None else if p \<le> a \<and> a < p + length xs then Some (xs ! (a - p)) else h a)"
  by (simp add: load_def poke_def)

lemma poke_Nil [simp]: "poke h p [] = h"
  by (rule ext) (auto simp: poke_def)

lemma poke_Cons: "poke (h(p := Some y)) (Suc p) ys = poke h p (y # ys)"
  by (rule ext) (auto simp: poke_def nth_Cons')

lemma biquad_frames_sem:
  assumes "cells h (inp + i) xs" and "allocated h (outp + i) (length xs)"
    and "outp \<le> inp \<or> inp + (i + length xs) \<le> outp"
  shows "biquad_frames c outp inp (i + length xs) i s1 s2 h =
           Some (fst (snd (tdf2 c (s1, s2) xs)), snd (snd (tdf2 c (s1, s2) xs)),
                 poke h (outp + i) (fst (tdf2 c (s1, s2) xs)))"
  using assms
proof (induction xs arbitrary: i s1 s2 h)
  case Nil
  then show ?case by (cases c) (simp add: biquad_frames.simps)
next
  case (Cons x xs)
  obtain b0 b1 b2 a1 a2 where c: "c = (b0, b1, b2, a1, a2)" by (cases c)
  define y where "y = fadd (fmul b0 x) s1"
  define t1 where "t1 = fadd (fadd (fmul b1 x) (fmul a1 y)) s2"
  define t2 where "t2 = fadd (fmul b2 x) (fmul a2 y)"
  define h1 where "h1 = h(outp + i := Some y)"
  have ld: "load h (inp + i) = Some x"
    using Cons.prems(1) by (auto simp: cells_iff dest: spec [of _ 0])
  have st: "store h (outp + i) y = Some h1"
    using Cons.prems(2) by (auto simp: allocated_iff store_def load_def h1_def dest: spec [of _ 0] split: if_splits)
  have nz: "outp + i \<noteq> NULL"
    using Cons.prems(2) by (auto simp: allocated_iff load_def dest: spec [of _ 0] split: if_splits)
  have c1: "cells h1 (inp + Suc i) xs"
    unfolding cells_iff
  proof (intro allI impI)
    fix j assume j: "j < length xs"
    have "load h (inp + i + Suc j) = Some ((x # xs) ! Suc j)"
      using Cons.prems(1) j unfolding cells_iff by (metis Suc_less_eq length_Cons)
    moreover have "inp + Suc i + j \<noteq> outp + i"
      using Cons.prems(3) j by auto
    ultimately show "load h1 (inp + Suc i + j) = Some (xs ! j)"
      by (auto simp: load_def h1_def split: if_splits)
  qed
  have a1: "allocated h1 (outp + Suc i) (length xs)"
    unfolding allocated_iff
  proof (intro allI impI)
    fix j assume j: "j < length xs"
    have "load h (outp + i + Suc j) \<noteq> None"
      using Cons.prems(2) j unfolding allocated_iff by (metis Suc_less_eq length_Cons)
    then show "load h1 (outp + Suc i + j) \<noteq> None"
      by (auto simp: load_def h1_def split: if_splits)
  qed
  have o1: "outp \<le> inp \<or> inp + (Suc i + length xs) \<le> outp"
    using Cons.prems(3) by simp
  have "biquad_frames c outp inp (i + length (x # xs)) i s1 s2 h =
          biquad_frames c outp inp (Suc i + length xs) (Suc i) t1 t2 h1"
    by (subst biquad_frames.simps [of b0 b1 b2 a1 a2, folded c])
      (simp add: ld st [unfolded y_def] Let_def y_def t1_def t2_def c)
  also have "\<dots> = Some (fst (snd (tdf2 c (t1, t2) xs)), snd (snd (tdf2 c (t1, t2) xs)),
                 poke h1 (outp + Suc i) (fst (tdf2 c (t1, t2) xs)))"
    by (rule Cons.IH [OF c1 a1 o1])
  finally show ?case
    by (simp add: c Let_def y_def t1_def t2_def h1_def split_beta poke_Cons)
qed

lemma store_allocated:
  "load h p \<noteq> None \<Longrightarrow> store h p v = Some (h(p := Some v))"
  by (auto simp: load_def store_def split: if_splits)

lemma load_poke_allocated: "load h a \<noteq> None \<Longrightarrow> load (poke h p xs) a \<noteq> None"
  by (auto simp: load_def poke_def split: if_splits)

lemma poke_pair: "h(p := Some a, Suc p := Some b) = poke h p [a, b]"
  by (rule ext) (auto simp: poke_def nth_Cons')

lemma cells_load:
  "cells h p xs \<Longrightarrow> i < length xs \<Longrightarrow> load h (p + i) = Some (xs ! i)"
  by (simp add: cells_iff)

lemma biquad_process_f32_sem:
  assumes co: "cells h coeff [b0, b1, b2, na1, na2]"
    and st: "cells h state [w1, w2]"
    and inp: "cells h inp xs"
    and out: "allocated h outp (length xs)"
    and ov: "outp \<le> inp \<or> inp + length xs \<le> outp"
    and run: "tdf2 (b0, b1, b2, na1, na2) (w1, w2) xs = (ys, (w1', w2'))"
  shows "biquad_process_f32 coeff state outp inp (length xs) h =
           Some (poke (poke h outp ys) state [w1', w2'])"
proof -
  have c: "load h coeff = Some b0" "load h (Suc coeff) = Some b1"
    "load h (Suc (Suc coeff)) = Some b2" "load h (coeff + 3) = Some na1"
    "load h (coeff + 4) = Some na2"
    using cells_load [OF co, of 0] cells_load [OF co, of 1] cells_load [OF co, of 2]
      cells_load [OF co, of 3] cells_load [OF co, of 4] by simp_all
  have s: "load h state = Some w1" "load h (Suc state) = Some w2"
    using cells_load [OF st, of 0] cells_load [OF st, of 1] by simp_all
  have loop: "biquad_frames (b0, b1, b2, na1, na2) outp inp (length xs) 0 w1 w2 h =
      Some (w1', w2', poke h outp ys)"
    using biquad_frames_sem [of h inp 0 xs outp "(b0, b1, b2, na1, na2)" w1 w2] inp out ov
    by (simp add: run)
  define h1 where "h1 = poke h outp ys"
  have s1: "store h1 state w1' = Some (h1(state := Some w1'))"
    unfolding h1_def by (rule store_allocated, rule load_poke_allocated) (simp add: s)
  have "load h1 (Suc state) \<noteq> None"
    unfolding h1_def by (rule load_poke_allocated) (simp add: s)
  then have "load (h1(state := Some w1')) (Suc state) \<noteq> None"
    by (auto simp: load_def split: if_splits)
  then have s2: "store (h1(state := Some w1')) (Suc state) w2' =
      Some (h1(state := Some w1', Suc state := Some w2'))"
    by (rule store_allocated)
  show ?thesis
    unfolding biquad_process_f32_def
    by (simp add: c s loop h1_def [symmetric] s1 s2 poke_pair)
qed

lemma run_sections_append:
  "run_sections (fs @ gs) h = run_sections fs h \<bind> run_sections gs"
  by (induction fs arbitrary: h) (auto split: Option.bind_splits)

lemma upt_shift: "[0 ..< Suc k] = 0 # map Suc [0 ..< k]"
  by (simp add: upt_conv_Cons map_Suc_upt del: upt_Suc)

lemma stage_loop_plan:
  "stage_loop outp n (s0 + k) s0 coeff sts inp h =
     run_sections
       (map (\<lambda>j. biquad_process_f32 (coeff + 5 * j) (sts + 2 * j) outp
                   (if j = 0 then inp else outp) n) [0 ..< k]) h
     \<bind> (\<lambda>h'. Some (coeff + 5 * k, sts + 2 * k, h'))"
proof (induction k arbitrary: s0 coeff sts inp h)
  case 0
  show ?case by (simp add: stage_loop.simps [of _ _ s0 s0])
next
  case (Suc k)
  have "stage_loop outp n (s0 + Suc k) s0 coeff sts inp h =
          biquad_process_f32 coeff sts outp inp n h \<bind>
          (\<lambda>h'. stage_loop outp n (Suc s0 + k) (Suc s0) (coeff + 5) (sts + 2) outp h')"
    by (subst stage_loop.simps) simp
  also have "\<dots> = biquad_process_f32 coeff sts outp inp n h \<bind>
          (\<lambda>h'. run_sections
             (map (\<lambda>j. biquad_process_f32 (coeff + 5 + 5 * j) (sts + 2 + 2 * j) outp outp n)
                [0 ..< k]) h'
           \<bind> (\<lambda>h''. Some (coeff + 5 + 5 * k, sts + 2 + 2 * k, h'')))"
  proof -
    have *: "map (\<lambda>j. biquad_process_f32 (coeff + 5 + 5 * j) (sts + 2 + 2 * j) outp
                   (if j = 0 then outp else outp) n) [0 ..< k] =
       map (\<lambda>j. biquad_process_f32 (coeff + 5 + 5 * j) (sts + 2 + 2 * j) outp outp n) [0 ..< k]"
      by simp
    show ?thesis
      by (simp only: Suc.IH [of "Suc s0" "coeff + 5" "sts + 2" outp] *)
  qed
  also have "\<dots> = run_sections
       (map (\<lambda>j. biquad_process_f32 (coeff + 5 * j) (sts + 2 * j) outp
                   (if j = 0 then inp else outp) n) [0 ..< Suc k]) h
     \<bind> (\<lambda>h'. Some (coeff + 5 * Suc k, sts + 2 * Suc k, h'))"
    by (simp only: upt_shift) (simp add: bind_assoc comp_def add.assoc)
  finally show ?case .
qed

lemma chan_loop_plan:
  assumes "sts = states f + 2 * (c0 * S)"
    and "\<not> share \<Longrightarrow> coeff = coefficients f + 5 * (c0 * S)"
  shows "chan_loop f (c0 + k) n S share inp outp c0 coeff sts h =
     run_sections
       (concat (map (\<lambda>c. map (\<lambda>s. biquad_process_f32
                       (coefficients f + coeff_offset share S c s)
                       (states f + state_offset S c s)
                       (outp + mul_u32 c n)
                       (if s = 0 then inp + mul_u32 c n else outp + mul_u32 c n) n)
                     [0 ..< S]) [c0 ..< c0 + k])) h"
  using assms
proof (induction k arbitrary: c0 coeff sts h)
  case 0
  show ?case by (simp add: chan_loop.simps [of _ c0 _ _ _ _ _ c0])
next
  case (Suc k)
  define cur where "cur = (if share then coefficients f else coeff)"
  have cur: "\<And>j. cur + 5 * j = coefficients f + coeff_offset share S c0 j"
    using Suc.prems(2) by (auto simp: cur_def coeff_offset_def)
  have sts: "\<And>j. sts + 2 * j = states f + state_offset S c0 j"
    using Suc.prems(1) by (simp add: state_offset_def)
  define row where "row = map (\<lambda>s. biquad_process_f32
                       (coefficients f + coeff_offset share S c0 s)
                       (states f + state_offset S c0 s)
                       (outp + mul_u32 c0 n)
                       (if s = 0 then inp + mul_u32 c0 n else outp + mul_u32 c0 n) n)
                     [0 ..< S]"
  have stage: "stage_loop (outp + mul_u32 c0 n) n S 0 cur sts (inp + mul_u32 c0 n) h' =
      run_sections row h' \<bind> (\<lambda>h''. Some (cur + 5 * S, sts + 2 * S, h''))" for h'
    using stage_loop_plan [of "outp + mul_u32 c0 n" n 0 S cur sts "inp + mul_u32 c0 n" h']
    by (simp add: cur sts row_def)
  have next_sts: "sts + 2 * S = states f + 2 * (Suc c0 * S)"
    using Suc.prems(1) by simp
  have next_coeff: "\<not> share \<Longrightarrow> cur + 5 * S = coefficients f + 5 * (Suc c0 * S)"
    using Suc.prems(2) by (simp add: cur_def)
  have "chan_loop f (c0 + Suc k) n S share inp outp c0 coeff sts h =
      run_sections row h \<bind>
        (\<lambda>h'. chan_loop f (Suc c0 + k) n S share inp outp (Suc c0) (cur + 5 * S) (sts + 2 * S) h')"
    by (subst chan_loop.simps)
      (simp add: Let_def cur_def [symmetric] stage)
  also have "\<dots> = run_sections row h \<bind>
        run_sections (concat (map (\<lambda>c. map (\<lambda>s. biquad_process_f32
                       (coefficients f + coeff_offset share S c s)
                       (states f + state_offset S c s)
                       (outp + mul_u32 c n)
                       (if s = 0 then inp + mul_u32 c n else outp + mul_u32 c n) n)
                     [0 ..< S]) [Suc c0 ..< Suc c0 + k]))"
    using Suc.IH [OF next_sts next_coeff] by (auto intro: Option.bind_cong)
  also have "\<dots> = run_sections
       (concat (map (\<lambda>c. map (\<lambda>s. biquad_process_f32
                       (coefficients f + coeff_offset share S c s)
                       (states f + state_offset S c s)
                       (outp + mul_u32 c n)
                       (if s = 0 then inp + mul_u32 c n else outp + mul_u32 c n) n)
                     [0 ..< S]) [c0 ..< c0 + Suc k])) h"
    by (simp add: upt_conv_Cons run_sections_append row_def del: upt_Suc)
  finally show ?case .
qed

lemma validate_null: "spark_block_validate cfg None fl \<noteq> SPARK_NOERROR"
  by (simp add: spark_block_validate_def SPARK_NOERROR_def SPARK_ERR_INVALID_PARAM_def)

lemma kernel_flags_fields:
  "spark_buffer_get_format kernel_flags = SPARK_FMT_F32"
  "spark_buffer_get_layout kernel_flags = SPARK_LAYOUT_PLANAR"
  "spark_block_get_type kernel_flags = SPARK_BLOCK_PROCESS"
  by (simp_all add: kernel_flags_def flag_defs)

lemma validated_bases:
  assumes "spark_block_validate cfg (Some b) kernel_flags = SPARK_NOERROR"
  shows "base (input b) \<noteq> NULL" "base (output b) \<noteq> NULL"
  using assms
  by (auto simp: spark_block_validate_def Let_def spark_buffer_is_valid_def status_defs
      kernel_flags_fields split: if_splits)

lemma sosfilt_plan_eq:
  assumes ok: "spark_block_validate cfg (Some (header f)) kernel_flags = SPARK_NOERROR"
    and pre: "NDEBUG cfg \<or> coefficients f \<noteq> NULL \<and> states f \<noteq> NULL \<and> 0 < n_stages f"
  shows "spark_sosfilt_f32 cfg (Some f) h =
           (case run_sections (sosfilt_plan f) h of
              None \<Rightarrow> Invalid_Access
            | Some h' \<Rightarrow> Returned h')"
proof -
  have plan: "chan_loop f (unat (channels (input (header f)))) (unat (frames (input (header f))))
        (unat (n_stages f)) (sos_flags f AND SPARK_SOSFILT_SHARE_SOS \<noteq> 0)
        (base (input (header f))) (base (output (header f))) 0 (coefficients f) (states f) h =
      run_sections (sosfilt_plan f) h"
    using chan_loop_plan [of "states f" f 0 "unat (n_stages f)"
        "sos_flags f AND SPARK_SOSFILT_SHARE_SOS \<noteq> 0" "coefficients f"
        "unat (channels (input (header f)))" "unat (frames (input (header f)))"
        "base (input (header f))" "base (output (header f))" h]
    by (simp add: sosfilt_plan_def section_call_def Let_def)
  show ?thesis
    using ok pre validated_bases [OF ok]
    by (auto simp: spark_sosfilt_f32_def kernel_flags_def [symmetric] Let_def plan)
qed

lemma length_flat5 [simp]: "length (flat5 cs) = 5 * length cs"
  by (induction cs rule: flat5.induct) simp_all

lemma length_flat2 [simp]: "length (flat2 ws) = 2 * length ws"
  by (induction ws rule: flat2.induct) simp_all

lemma length_tdf2 [simp]: "length (fst (tdf2 c w xs)) = length xs"
  by (induction c w xs rule: tdf2.induct) (simp_all add: Let_def split_beta)

lemma length_cascade [simp]: "length (fst (cascade cs ws xs)) = length xs"
proof (induction cs arbitrary: ws xs)
  case Nil
  show ?case by simp
next
  case (Cons c cs)
  then show ?case by (cases ws) (simp_all add: split_beta)
qed

lemma length_cascade_states:
  "length ws = length cs \<Longrightarrow> length (snd (cascade cs ws xs)) = length cs"
proof (induction cs arbitrary: ws xs)
  case Nil
  show ?case by simp
next
  case (Cons c cs)
  then show ?case by (cases ws) (simp_all add: split_beta)
qed

lemma cells_append:
  "cells h p (xs @ ys) \<longleftrightarrow> cells h p xs \<and> cells h (p + length xs) ys"
proof
  assume c: "cells h p (xs @ ys)"
  have "load h (p + i) = Some (xs ! i)" if "i < length xs" for i
    using cells_load [OF c, of i] that by (simp add: nth_append)
  moreover have "load h (p + length xs + j) = Some (ys ! j)" if "j < length ys" for j
    using cells_load [OF c, of "length xs + j"] that by (simp add: nth_append add.assoc)
  ultimately show "cells h p xs \<and> cells h (p + length xs) ys"
    by (simp add: cells_iff)
next
  assume c: "cells h p xs \<and> cells h (p + length xs) ys"
  show "cells h p (xs @ ys)"
    unfolding cells_iff
  proof (intro allI impI)
    fix i assume i: "i < length (xs @ ys)"
    show "load h (p + i) = Some ((xs @ ys) ! i)"
    proof (cases "i < length xs")
      case True
      then show ?thesis using c by (simp add: cells_iff nth_append)
    next
      case False
      then have "load h (p + length xs + (i - length xs)) = Some (ys ! (i - length xs))"
        using c i by (intro cells_load) auto
      with False show ?thesis by (simp add: nth_append)
    qed
  qed
qed

lemma allocated_append:
  "allocated h p (n + m) \<longleftrightarrow> allocated h p n \<and> allocated h (p + n) m"
proof
  assume a: "allocated h p (n + m)"
  have "load h (p + n + j) \<noteq> None" if "j < m" for j
    using a that by (simp add: allocated_iff add.assoc)
  then show "allocated h p n \<and> allocated h (p + n) m"
    using a by (simp add: allocated_iff)
next
  assume a: "allocated h p n \<and> allocated h (p + n) m"
  show "allocated h p (n + m)"
    unfolding allocated_iff
  proof (intro allI impI)
    fix i assume i: "i < n + m"
    show "load h (p + i) \<noteq> None"
    proof (cases "i < n")
      case True
      then show ?thesis using a by (simp add: allocated_iff)
    next
      case False
      then have "i - n < m" using i by simp
      then have "load h (p + n + (i - n)) \<noteq> None"
        using a unfolding allocated_iff by blast
      with False show ?thesis by simp
    qed
  qed
qed

lemma cells_poke_same: "allocated h p (length xs) \<Longrightarrow> cells (poke h p xs) p xs"
  by (auto simp: cells_iff allocated_iff load_def poke_def split: if_splits)

lemma load_poke_other:
  "a < p \<or> p + length xs \<le> a \<Longrightarrow> load (poke h p xs) a = load h a"
  by (auto simp: load_def poke_def)

lemma cells_poke_other:
  assumes "disjoint p (length xs) q (length ys)"
  shows "cells (poke h p xs) q ys = cells h q ys"
proof -
  have "load (poke h p xs) (q + i) = load h (q + i)" if "i < length ys" for i
    using assms that by (intro load_poke_other) (auto simp: disjoint_def)
  then show ?thesis by (simp add: cells_iff)
qed

lemma allocated_poke: "allocated h q n \<Longrightarrow> allocated (poke h p xs) q n"
  by (auto simp: allocated_iff load_def poke_def split: if_splits)

lemma poke_cells_id: "cells h p xs \<Longrightarrow> poke h p xs = h"
proof (rule ext)
  fix a
  assume c: "cells h p xs"
  show "poke h p xs a = h a"
  proof (cases "p \<le> a \<and> a < p + length xs")
    case True
    then have "load h (p + (a - p)) = Some (xs ! (a - p))"
      using c by (intro cells_load) auto
    with True show ?thesis by (auto simp: poke_def load_def split: if_splits)
  next
    case False
    then show ?thesis by (auto simp: poke_def)
  qed
qed

lemma poke_poke_same: "length ys = length zs \<Longrightarrow> poke (poke h p ys) p zs = poke h p zs"
  by (rule ext) (auto simp: poke_def)

lemma poke_commute:
  "disjoint p (length xs) q (length ys) \<Longrightarrow>
     poke (poke h p xs) q ys = poke (poke h q ys) p xs"
  by (rule ext) (auto simp: poke_def disjoint_def)

lemma poke_append: "poke (poke h p xs) (p + length xs) ys = poke h p (xs @ ys)"
  by (rule ext) (auto simp: poke_def nth_append)

lemma disjoint_sub:
  "disjoint p n q m \<Longrightarrow> p \<le> p' \<Longrightarrow> p' + n' \<le> p + n \<Longrightarrow> q \<le> q' \<Longrightarrow> q' + m' \<le> q + m \<Longrightarrow>
     disjoint p' n' q' m'"
  by (auto simp: disjoint_def)

lemma disjoint_sym: "disjoint p n q m \<Longrightarrow> disjoint q m p n"
  by (auto simp: disjoint_def)

lemma cells_split5:
  "cells h p (a # b # c # d # e # xs) \<longleftrightarrow> cells h p [a, b, c, d, e] \<and> cells h (p + 5) xs"
  using cells_append [of h p "[a, b, c, d, e]" xs] by (simp add: eval_nat_numeral)

lemma cells_split2:
  "cells h p (a # b # xs) \<longleftrightarrow> cells h p [a, b] \<and> cells h (p + 2) xs"
  using cells_append [of h p "[a, b]" xs] by (simp add: eval_nat_numeral)

lemma stage_loop_sem:
  assumes "cells h coeff (flat5 cs)" and "cells h sts (flat2 ws)" and "length ws = length cs"
    and "cells h inp xs" and "allocated h outp (length xs)"
    and "outp \<le> inp \<or> inp + length xs \<le> outp"
    and "cs = [] \<Longrightarrow> inp = outp"
    and "disjoint coeff (5 * length cs) outp (length xs)"
    and "disjoint coeff (5 * length cs) sts (2 * length cs)"
    and "disjoint sts (2 * length cs) outp (length xs)"
  shows "stage_loop outp (length xs) (s0 + length cs) s0 coeff sts inp h =
           Some (coeff + 5 * length cs, sts + 2 * length cs,
                 poke (poke h outp (fst (cascade cs ws xs))) sts (flat2 (snd (cascade cs ws xs))))"
  using assms
proof (induction cs arbitrary: ws s0 coeff sts h xs inp)
  case Nil
  then show ?case
    by (simp add: stage_loop.simps [of _ _ s0 s0] poke_cells_id)
next
  case (Cons c cs)
  note inp = Cons.prems(4) and alloc = Cons.prems(5) and ov = Cons.prems(6)
  obtain w ws' where ws: "ws = w # ws'" and len: "length ws' = length cs"
    using Cons.prems(3) by (cases ws) auto
  obtain b0 b1 b2 na1 na2 where c: "c = (b0, b1, b2, na1, na2)" by (cases c)
  obtain w1 w2 where w: "w = (w1, w2)" by (cases w)
  obtain ys w1' w2' where run: "tdf2 (b0, b1, b2, na1, na2) (w1, w2) xs = (ys, (w1', w2'))"
    by (metis surj_pair)
  have lys: "length ys = length xs"
    using length_tdf2 [of "(b0, b1, b2, na1, na2)" "(w1, w2)" xs] by (simp add: run)
  define h1 where "h1 = poke (poke h outp ys) sts [w1', w2']"
  define zs where "zs = fst (cascade cs ws' ys)"
  define F where "F = flat2 (snd (cascade cs ws' ys))"
  have lzs: "length zs = length xs" by (simp add: zs_def lys)
  have "cells h coeff (b0 # b1 # b2 # na1 # na2 # flat5 cs)"
    using Cons.prems(1) by (simp add: c)
  then have co: "cells h coeff [b0, b1, b2, na1, na2]" and co': "cells h (coeff + 5) (flat5 cs)"
    by (simp_all only: iffD1 [OF cells_split5])
  have "cells h sts (w1 # w2 # flat2 ws')"
    using Cons.prems(2) by (simp add: ws w)
  then have st: "cells h sts [w1, w2]" and st': "cells h (sts + 2) (flat2 ws')"
    by (simp_all only: iffD1 [OF cells_split2])
  have d1: "disjoint coeff (5 * Suc (length cs)) outp (length xs)"
    and d2: "disjoint coeff (5 * Suc (length cs)) sts (2 * Suc (length cs))"
    and d3: "disjoint sts (2 * Suc (length cs)) outp (length xs)"
    using Cons.prems(8,9,10) by simp_all
  have bq: "biquad_process_f32 coeff sts outp inp (length xs) h = Some h1"
    unfolding h1_def by (rule biquad_process_f32_sem [OF co st inp alloc ov run])
  have "cells (poke h outp ys) (coeff + 5) (flat5 cs) = cells h (coeff + 5) (flat5 cs)"
    using d1 by (intro cells_poke_other) (auto simp: disjoint_def lys)
  moreover have "cells h1 (coeff + 5) (flat5 cs) = cells (poke h outp ys) (coeff + 5) (flat5 cs)"
    unfolding h1_def using d2 by (intro cells_poke_other) (auto simp: disjoint_def)
  ultimately have i1: "cells h1 (coeff + 5) (flat5 cs)" using co' by simp
  have "cells (poke h outp ys) (sts + 2) (flat2 ws') = cells h (sts + 2) (flat2 ws')"
    using d3 by (intro cells_poke_other) (auto simp: disjoint_def lys len)
  moreover have "cells h1 (sts + 2) (flat2 ws') = cells (poke h outp ys) (sts + 2) (flat2 ws')"
    unfolding h1_def by (intro cells_poke_other) (auto simp: disjoint_def)
  ultimately have i2: "cells h1 (sts + 2) (flat2 ws')" using st' by simp
  have "cells (poke h outp ys) outp ys"
    using alloc by (intro cells_poke_same) (simp add: lys)
  moreover have "cells h1 outp ys = cells (poke h outp ys) outp ys"
    unfolding h1_def using d3 by (intro cells_poke_other) (auto simp: disjoint_def lys)
  ultimately have i4: "cells h1 outp ys" by simp
  have i4a: "allocated h1 outp (length ys)"
    unfolding h1_def using alloc by (intro allocated_poke) (simp add: lys)
  have i5: "disjoint (coeff + 5) (5 * length cs) outp (length ys)"
    and i6: "disjoint (coeff + 5) (5 * length cs) (sts + 2) (2 * length cs)"
    and i7: "disjoint (sts + 2) (2 * length cs) outp (length ys)"
    using d1 d2 d3 by (auto simp: disjoint_def lys)
  have rest: "stage_loop outp (length xs) (Suc s0 + length cs) (Suc s0) (coeff + 5) (sts + 2) outp h1 =
      Some (coeff + 5 + 5 * length cs, sts + 2 + 2 * length cs, poke (poke h1 outp zs) (sts + 2) F)"
    using Cons.IH [OF i1 i2 len i4 i4a _ _ i5 i6 i7, of "Suc s0"] by (simp add: lys zs_def F_def)
  have "poke (poke h1 outp zs) (sts + 2) F =
      poke (poke (poke (poke h outp ys) outp zs) sts [w1', w2']) (sts + 2) F"
    unfolding h1_def using d3
    by (subst poke_commute [of sts "[w1', w2']" outp zs]) (auto simp: disjoint_def lzs)
  also have "\<dots> = poke (poke (poke h outp zs) sts [w1', w2']) (sts + 2) F"
    by (simp add: poke_poke_same lys lzs)
  also have "\<dots> = poke (poke h outp zs) sts ([w1', w2'] @ F)"
    using poke_append [of "poke h outp zs" sts "[w1', w2']" F] by simp
  finally have heap: "poke (poke h1 outp zs) (sts + 2) F =
      poke (poke h outp zs) sts (w1' # w2' # F)" by simp
  have casc: "cascade (c # cs) ws xs = (zs, (w1', w2') # snd (cascade cs ws' ys))"
    by (simp add: ws c w run zs_def split_beta)
  have step: "stage_loop outp (length xs) (s0 + length (c # cs)) s0 coeff sts inp h =
      stage_loop outp (length xs) (Suc s0 + length cs) (Suc s0) (coeff + 5) (sts + 2) outp h1"
    by (subst stage_loop.simps) (simp add: bq)
  show ?case
    by (simp only: step rest heap casc) (simp add: F_def)
qed

lemma length_sos_output:
  "length css = length xss \<Longrightarrow> length wss = length xss \<Longrightarrow> \<forall>xs\<in>set xss. length xs = n \<Longrightarrow>
     length (sos_output css wss xss) = length xss * n"
proof (induction css wss xss rule: sos_planes.induct)
  case (1 cs css ws wss xs xss)
  then show ?case by (simp add: sos_output_def)
qed (simp_all add: sos_output_def)

lemma length_sos_states:
  "length css = length xss \<Longrightarrow> length wss = length xss \<Longrightarrow> \<forall>cs\<in>set css. length cs = S \<Longrightarrow>
     \<forall>ws\<in>set wss. length ws = S \<Longrightarrow>
     length (sos_states css wss xss) = 2 * S * length xss"
proof (induction css wss xss rule: sos_planes.induct)
  case (1 cs css ws wss xs xss)
  then show ?case by (simp add: sos_states_def length_cascade_states)
qed (simp_all add: sos_states_def)

lemma length_concat_const:
  "\<forall>xs\<in>set xss. length xs = n \<Longrightarrow> length (concat xss) = length xss * n"
  by (induction xss) simp_all

lemma length_concat_flat2:
  "\<forall>ws\<in>set wss. length ws = S \<Longrightarrow> length (concat (map flat2 wss)) = 2 * S * length wss"
  by (induction wss) simp_all

lemma mul_u32_small: "c * n < 2 ^ 32 \<Longrightarrow> mul_u32 c n = c * n"
  by (simp add: mul_u32_def)

lemma chan_loop_sem:
  assumes "length css = length xss" and "length wss = length xss"
    and "\<forall>xs\<in>set xss. length xs = n" and "\<forall>cs\<in>set css. length cs = S"
    and "\<forall>ws\<in>set wss. length ws = S" and "0 < S"
    and "(c0 + length xss) * n \<le> 2 ^ 32"
    and "sts = states f + 2 * S * c0"
    and "share \<or> coeff = coefficients f + 5 * S * c0"
    and "cells g (inb + c0 * n) (concat xss)"
    and "allocated g (outb + c0 * n) (length xss * n)"
    and "cells g sts (concat (map flat2 wss))"
    and "\<forall>j<length xss. cells g (coefficients f + coeff_offset share S (c0 + j) 0)
           (flat5 (css ! j))"
    and "\<forall>j<length xss. disjoint (coefficients f + coeff_offset share S (c0 + j) 0) (5 * S)
           (outb + c0 * n) (length xss * n)"
    and "\<forall>j<length xss. disjoint (coefficients f + coeff_offset share S (c0 + j) 0) (5 * S)
           sts (2 * S * length xss)"
    and "disjoint sts (2 * S * length xss) (outb + c0 * n) (length xss * n)"
    and "disjoint sts (2 * S * length xss) (inb + c0 * n) (length xss * n)"
    and "inb = outb \<or> disjoint (inb + c0 * n) (length xss * n) (outb + c0 * n) (length xss * n)"
  shows "chan_loop f (c0 + length xss) n S share inb outb c0 coeff sts g =
           Some (poke (poke g (outb + c0 * n) (sos_output css wss xss)) sts
                   (sos_states css wss xss))"
  using assms
proof (induction xss arbitrary: css wss c0 coeff sts g)
  case Nil
  then show ?case
    by (simp add: chan_loop.simps [of _ c0 _ _ _ _ _ c0] sos_output_def sos_states_def)
next
  case (Cons xs xss)
  obtain cs css' where css: "css = cs # css'" and lcss: "length css' = length xss"
    using Cons.prems(1) by (cases css) auto
  obtain ws wss' where wss: "wss = ws # wss'" and lwss: "length wss' = length xss"
    using Cons.prems(2) by (cases wss) auto
  define k where "k = length xss"
  define po where "po = outb + c0 * n"
  define pi where "pi = inb + c0 * n"
  define cur where "cur = (if share then coefficients f else coeff)"
  have lxs: "length xs = n" and lcs: "length cs = S" and lws: "length ws = S"
    using Cons.prems(3,4,5) by (simp_all add: css wss)
  have cur: "cur = coefficients f + coeff_offset share S c0 0"
    using Cons.prems(9) by (auto simp: cur_def coeff_offset_def)
  have wrap: "mul_u32 c0 n = c0 * n"
  proof (cases "n = 0")
    case True
    then show ?thesis by (simp add: mul_u32_def)
  next
    case False
    have "c0 * n < (c0 + Suc k) * n" using False by (simp add: algebra_simps)
    then show ?thesis using Cons.prems(7) by (intro mul_u32_small) (simp add: k_def)
  qed
  note d_co_out = Cons.prems(14) and d_co_st = Cons.prems(15) and d_st_out = Cons.prems(16)
    and d_st_in = Cons.prems(17) and d_in_out = Cons.prems(18)
  have co0: "cells g cur (flat5 cs)"
    using Cons.prems(13) [rule_format, of 0] by (simp add: cur css)
  have st0: "cells g sts (flat2 ws)" and st_rest: "cells g (sts + 2 * S) (concat (map flat2 wss'))"
    using Cons.prems(12) by (simp_all add: wss cells_append lws)
  have in0: "cells g pi xs" and in_rest: "cells g (pi + n) (concat xss)"
    using Cons.prems(10) by (simp_all add: cells_append pi_def lxs)
  have out0: "allocated g po (length xs)" and out_rest: "allocated g (po + n) (k * n)"
    using Cons.prems(11) allocated_append [of g po n "k * n"]
    by (simp_all add: po_def lxs k_def)
  have ov: "po \<le> pi \<or> pi + length xs \<le> po"
    using d_in_out by (auto simp: po_def pi_def disjoint_def lxs)
  have dA: "disjoint cur (5 * length cs) po (length xs)"
    using d_co_out [rule_format, of 0] by (auto simp: cur disjoint_def po_def lxs lcs)
  have dB: "disjoint cur (5 * length cs) sts (2 * length cs)"
    using d_co_st [rule_format, of 0] by (auto simp: cur disjoint_def lcs)
  have dC: "disjoint sts (2 * length cs) po (length xs)"
    using d_st_out by (auto simp: disjoint_def po_def lxs lcs)
  define zs where "zs = fst (cascade cs ws xs)"
  define F where "F = flat2 (snd (cascade cs ws xs))"
  define g1 where "g1 = poke (poke g po zs) sts F"
  have lzs: "length zs = n" by (simp add: zs_def lxs)
  have lF: "length F = 2 * S" by (simp add: F_def length_cascade_states lws lcs)
  have ne: "cs = [] \<Longrightarrow> pi = po"
    using Cons.prems(6) lcs by auto
  have stage: "stage_loop po n S 0 cur sts pi g = Some (cur + 5 * S, sts + 2 * S, g1)"
    using stage_loop_sem [OF co0 st0 _ in0 out0 ov ne dA dB dC, of 0]
    by (simp add: lws lcs lxs g1_def zs_def F_def)
  have step: "chan_loop f (c0 + length (xs # xss)) n S share inb outb c0 coeff sts g =
      chan_loop f (Suc c0 + length xss) n S share inb outb (Suc c0) (cur + 5 * S) (sts + 2 * S) g1"
    by (subst chan_loop.simps)
      (simp add: Let_def wrap cur_def [symmetric] po_def [symmetric] pi_def [symmetric] stage)
  have other: "cells g1 q ys = cells g q ys"
    if "disjoint po n q (length ys)" and "disjoint sts (2 * S) q (length ys)" for q ys
    unfolding g1_def using that
    by (simp add: cells_poke_other lzs lF)
  have pin: "inb + Suc c0 * n = pi + n" and pon: "outb + Suc c0 * n = po + n"
    by (simp_all add: pi_def po_def)
  have p7: "(Suc c0 + length xss) * n \<le> 2 ^ 32"
    using Cons.prems(7) by simp
  have p8: "sts + 2 * S = states f + 2 * S * Suc c0"
    using Cons.prems(8) by simp
  have p9: "share \<or> cur + 5 * S = coefficients f + 5 * S * Suc c0"
    using cur by (simp add: coeff_offset_def)
  have p10: "cells g1 (inb + Suc c0 * n) (concat xss)"
  proof -
    have "length (concat xss) = k * n"
      using Cons.prems(3) by (simp add: k_def length_concat_const)
    moreover have "disjoint po n (pi + n) (k * n)"
      using d_in_out by (auto simp: disjoint_def po_def pi_def k_def)
    moreover have "disjoint sts (2 * S) (pi + n) (k * n)"
      using d_st_in by (auto simp: disjoint_def pi_def k_def)
    ultimately have "cells g1 (pi + n) (concat xss) = cells g (pi + n) (concat xss)"
      by (intro other) simp_all
    then show ?thesis using in_rest by (simp only: pin)
  qed
  have p11: "allocated g1 (outb + Suc c0 * n) (length xss * n)"
    unfolding g1_def using out_rest
    by (intro allocated_poke) (simp only: pon k_def)
  have p12: "cells g1 (sts + 2 * S) (concat (map flat2 wss'))"
  proof -
    have "\<forall>ws\<in>set wss'. length ws = S"
      using Cons.prems(5) by (simp add: wss)
    then have "length (concat (map flat2 wss')) = 2 * S * k"
      using length_concat_flat2 [of wss' S] by (simp add: k_def lwss)
    moreover have "disjoint po n (sts + 2 * S) (2 * S * k)"
      using d_st_out by (auto simp: disjoint_def po_def k_def)
    moreover have "disjoint sts (2 * S) (sts + 2 * S) (2 * S * k)"
      by (simp add: disjoint_def)
    ultimately have "cells g1 (sts + 2 * S) (concat (map flat2 wss')) =
        cells g (sts + 2 * S) (concat (map flat2 wss'))"
      by (intro other) simp_all
    then show ?thesis using st_rest by simp
  qed
  have p13: "\<forall>j<length xss. cells g1 (coefficients f + coeff_offset share S (Suc c0 + j) 0)
      (flat5 (css' ! j))"
  proof (intro allI impI)
    fix j assume j: "j < length xss"
    define q where "q = coefficients f + coeff_offset share S (c0 + Suc j) 0"
    have "cells g q (flat5 (css ! Suc j))"
      using Cons.prems(13) [rule_format, of "Suc j"] j by (simp add: q_def)
    moreover have "length (flat5 (css' ! j)) = 5 * S"
      using Cons.prems(4) j lcss by (simp add: css)
    moreover have "disjoint po n q (5 * S)"
      using d_co_out [rule_format, of "Suc j"] j
      by (auto simp: disjoint_def po_def q_def)
    moreover have "disjoint sts (2 * S) q (5 * S)"
      using d_co_st [rule_format, of "Suc j"] j
      by (auto simp: disjoint_def q_def)
    ultimately have "cells g1 q (flat5 (css' ! j))"
      using other [of q "flat5 (css' ! j)"] by (simp add: css)
    then show "cells g1 (coefficients f + coeff_offset share S (Suc c0 + j) 0) (flat5 (css' ! j))"
      by (simp add: q_def)
  qed
  have p14: "\<forall>j<length xss. disjoint (coefficients f + coeff_offset share S (Suc c0 + j) 0) (5 * S)
           (outb + Suc c0 * n) (length xss * n)"
  proof (intro allI impI)
    fix j assume j: "j < length xss"
    show "disjoint (coefficients f + coeff_offset share S (Suc c0 + j) 0) (5 * S)
           (outb + Suc c0 * n) (length xss * n)"
      using d_co_out [rule_format, of "Suc j"] j by (auto simp: disjoint_def)
  qed
  have p15: "\<forall>j<length xss. disjoint (coefficients f + coeff_offset share S (Suc c0 + j) 0) (5 * S)
           (sts + 2 * S) (2 * S * length xss)"
  proof (intro allI impI)
    fix j assume j: "j < length xss"
    show "disjoint (coefficients f + coeff_offset share S (Suc c0 + j) 0) (5 * S)
           (sts + 2 * S) (2 * S * length xss)"
      using d_co_st [rule_format, of "Suc j"] j by (auto simp: disjoint_def)
  qed
  have p16: "disjoint (sts + 2 * S) (2 * S * length xss) (outb + Suc c0 * n) (length xss * n)"
    using d_st_out by (auto simp: disjoint_def)
  have p17: "disjoint (sts + 2 * S) (2 * S * length xss) (inb + Suc c0 * n) (length xss * n)"
    using d_st_in by (auto simp: disjoint_def)
  have p18: "inb = outb \<or>
      disjoint (inb + Suc c0 * n) (length xss * n) (outb + Suc c0 * n) (length xss * n)"
    using d_in_out by (auto simp: disjoint_def)
  have p3: "\<forall>xs\<in>set xss. length xs = n" and p4: "\<forall>cs\<in>set css'. length cs = S"
    and p5: "\<forall>ws\<in>set wss'. length ws = S"
    using Cons.prems(3,4,5) by (simp_all add: css wss)
  define Yr where "Yr = sos_output css' wss' xss"
  define Wr where "Wr = sos_states css' wss' xss"
  have lYr: "length Yr = k * n"
    unfolding Yr_def k_def by (rule length_sos_output [OF lcss lwss p3])
  have rest: "chan_loop f (Suc c0 + length xss) n S share inb outb (Suc c0) (cur + 5 * S)
      (sts + 2 * S) g1 = Some (poke (poke g1 (po + n) Yr) (sts + 2 * S) Wr)"
    using Cons.IH [OF lcss lwss p3 p4 p5 Cons.prems(6) p7 p8 p9 p10 p11 p12 p13 p14 p15 p16 p17 p18]
    by (simp only: Yr_def Wr_def pon)
  have "poke (poke g1 (po + n) Yr) (sts + 2 * S) Wr =
      poke (poke (poke (poke g po zs) (po + n) Yr) sts F) (sts + 2 * S) Wr"
    unfolding g1_def using d_st_out
    by (subst poke_commute [of sts F "po + n" Yr])
      (auto simp: disjoint_def lF lYr po_def k_def)
  also have "\<dots> = poke (poke (poke g po (zs @ Yr)) sts F) (sts + 2 * S) Wr"
    using poke_append [of g po zs Yr] by (simp add: lzs)
  also have "\<dots> = poke (poke g po (zs @ Yr)) sts (F @ Wr)"
    using poke_append [of "poke g po (zs @ Yr)" sts F Wr] by (simp add: lF)
  finally have heap: "poke (poke g1 (po + n) Yr) (sts + 2 * S) Wr =
      poke (poke g po (zs @ Yr)) sts (F @ Wr)" .
  have out: "sos_output css wss (xs # xss) = zs @ Yr"
    and sta: "sos_states css wss (xs # xss) = F @ Wr"
    by (simp_all add: css wss sos_output_def sos_states_def zs_def F_def Yr_def Wr_def)
  show ?case
    by (simp only: step rest heap out sta) (simp add: po_def)
qed

lemma bit_width_numeral:
  "bit_width (numeral (Num.Bit0 k)) = Suc (bit_width (numeral k))"
  "bit_width (numeral (Num.Bit1 k)) = Suc (bit_width (numeral k))"
  "bit_width (numeral Num.One) = Suc 0"
  "bit_width (Suc 0) = Suc 0"
proof -
  have half0: "numeral (Num.Bit0 k) div (2 :: nat) = numeral k"
    by (simp only: numeral_Bit0_div_2)
  have half1: "numeral (Num.Bit1 k) div (2 :: nat) = numeral k"
    by (simp only: numeral_Bit1_div_2)
  show "bit_width (numeral (Num.Bit0 k)) = Suc (bit_width (numeral k))"
    by (subst bit_width.simps) (simp only: half0 numeral_eq_iff zero_neq_numeral if_False numeral_neq_zero)
  show "bit_width (numeral (Num.Bit1 k)) = Suc (bit_width (numeral k))"
    by (subst bit_width.simps) (simp only: half1 numeral_neq_zero if_False)
  show "bit_width (numeral Num.One) = Suc 0"
    by (subst bit_width.simps) (simp add: bit_width.simps [of 0])
  show "bit_width (Suc 0) = Suc 0"
    by (subst bit_width.simps) (simp add: bit_width.simps [of 0])
qed

lemmas f32_eval = fadd_def fmul_def round_f32_def pack_def round_shift_def is_nan_def is_inf_def
  is_zero_def is_finite_def significand_def exponent_def signed_significand_def zero_def
  infinity_def default_nan_def one_def Let_def bit_width_numeral

lemmas ex_floats = half_def quarter_def two_def minus_half_def

section \<open>The biquad section\<close>

text \<open>
  Claim C1. One call of \<open>biquad_process_f32\<close> on coefficients \<open>{b0, b1, b2, -a1, -a2}\<close>,
  state \<open>{w1, w2}\<close> and the input samples \<open>xs\<close> writes, sample by sample and in order,
  the outputs of the recurrence \<open>y = b0*x + w1\<close>, \<open>w1 = b1*x + (-a1)*y + w2\<close>,
  \<open>w2 = b2*x + (-a2)*y\<close> (\<open>tdf2\<close>, in single precision) to the output, and leaves the
  final \<open>w1, w2\<close> in the two state cells. The arrays are read where the pointers point;
  the output may be the input itself, or any region that does not run ahead of the
  input.
\<close>

theorem biquad_section_recurrence:
  assumes "cells h coeff [b0, b1, b2, na1, na2]"
    and "cells h state [w1, w2]"
    and "cells h inp xs"
    and "allocated h outp (length xs)"
    and "outp \<le> inp \<or> inp + length xs \<le> outp"
    and "tdf2 (b0, b1, b2, na1, na2) (w1, w2) xs = (ys, (w1', w2'))"
  shows "biquad_process_f32 coeff state outp inp (length xs) h =
           Some (poke (poke h outp ys) state [w1', w2'])"
  using assms by (rule biquad_process_f32_sem)

theorem biquad_section_recurrence_witness:
  "biquad_process_f32 1 6 8 8 2
     (ex_heap [half, quarter, half, minus_half, zero False, zero False, zero False, one, two]) =
   Some (poke (poke
     (ex_heap [half, quarter, half, minus_half, zero False, zero False, zero False, one, two])
       8 [half, one]) 6 [half, one])"
proof -
  define h where
    "h = ex_heap [half, quarter, half, minus_half, zero False, zero False, zero False, one, two]"
  have c: "cells h 1 [half, quarter, half, minus_half, zero False]"
    and s: "cells h 6 [zero False, zero False]"
    and i: "cells h 8 [one, two]"
    and a: "allocated h 8 (length [one, two])"
    unfolding h_def by code_simp+
  have ov: "(8 :: nat) \<le> 8 \<or> 8 + length [one, two] \<le> 8" by simp
  have step1: "fadd (fmul half one) (zero False) = half"
    "fadd (fadd (fmul quarter one) (fmul minus_half half)) (zero False) = zero False"
    "fadd (fmul half one) (fmul (zero False) half) = half"
    by (simp_all add: ex_floats f32_eval)
  have step2: "fadd (fmul half two) (zero False) = one"
    "fadd (fadd (fmul quarter two) (fmul minus_half one)) half = half"
    "fadd (fmul half two) (fmul (zero False) one) = one"
    by (simp_all add: ex_floats f32_eval)
  have run: "tdf2 (half, quarter, half, minus_half, zero False) (zero False, zero False) [one, two] =
      ([half, one], (half, one))"
    by (simp add: step1 step2)
  show ?thesis
    using biquad_section_recurrence [OF c s i a ov run] by (simp add: h_def numeral_2_eq_2)
qed

section \<open>Addressing of coefficients and states\<close>

text \<open>
  Claim C2. On a validated instance with \<open>C\<close> channels and \<open>S\<close> stages,
  \<open>spark_sosfilt_f32\<close> is the sequence of calls of \<open>biquad_process_f32\<close>, channel by
  channel and stage by stage, where the call for channel \<open>c\<close> and stage \<open>s\<close> gets the
  coefficient block at offset \<open>5*s\<close> (shared) or \<open>5*(c*S + s)\<close> (independent) and the
  state block at offset \<open>2*(c*S + s)\<close> in either mode: the running cursors of the
  code are these closed forms, and the state cursor is never reset.
\<close>

theorem sosfilt_addressing:
  assumes "spark_block_validate cfg (Some (header f)) kernel_flags = SPARK_NOERROR"
    and "NDEBUG cfg \<or> coefficients f \<noteq> NULL \<and> states f \<noteq> NULL \<and> 0 < n_stages f"
  shows "spark_sosfilt_f32 cfg (Some f) h =
           (case run_sections (sosfilt_plan f) h of
              None \<Rightarrow> Invalid_Access
            | Some h' \<Rightarrow> Returned h')"
  using assms by (rule sosfilt_plan_eq)

lemma upt_0_2: "[0 ..< 2] = [0, 1 :: nat]"
  by code_simp

theorem sosfilt_addressing_witness:
  "sosfilt_plan (ex_filter (ex_buffer 30 2 3 0x23) (ex_buffer 40 2 3 0x23) 1 21 2 1) =
     [biquad_process_f32 1 21 40 30 3, biquad_process_f32 6 23 40 40 3,
      biquad_process_f32 1 25 43 33 3, biquad_process_f32 6 27 43 43 3] \<and>
   sosfilt_plan (ex_filter (ex_buffer 30 2 3 0x23) (ex_buffer 40 2 3 0x23) 1 21 2 0) =
     [biquad_process_f32 1 21 40 30 3, biquad_process_f32 6 23 40 40 3,
      biquad_process_f32 11 25 43 33 3, biquad_process_f32 16 27 43 43 3] \<and>
   spark_sosfilt_f32 ex_build
       (Some (ex_filter (ex_buffer 30 2 3 0x23) (ex_buffer 40 2 3 0x23) 1 21 2 1))
       (ex_heap (replicate 50 one)) =
     (case run_sections
         (sosfilt_plan (ex_filter (ex_buffer 30 2 3 0x23) (ex_buffer 40 2 3 0x23) 1 21 2 1))
         (ex_heap (replicate 50 one)) of
        None \<Rightarrow> Invalid_Access
      | Some h' \<Rightarrow> Returned h')"
proof -
  have ok: "spark_block_validate ex_build
      (Some (header (ex_filter (ex_buffer 30 2 3 0x23) (ex_buffer 40 2 3 0x23) 1 21 2 1)))
      kernel_flags = SPARK_NOERROR"
    by (simp add: ex_filter_def ex_defs kernel_flags_def flag_defs status_defs
        spark_block_validate_def spark_buffer_is_similar_def spark_buffer_is_valid_def
        spark_buffer_check_type_def NULL_def)
  have pre: "NDEBUG ex_build \<or>
      coefficients (ex_filter (ex_buffer 30 2 3 0x23) (ex_buffer 40 2 3 0x23) 1 21 2 1) \<noteq> NULL \<and>
      states (ex_filter (ex_buffer 30 2 3 0x23) (ex_buffer 40 2 3 0x23) 1 21 2 1) \<noteq> NULL \<and>
      0 < n_stages (ex_filter (ex_buffer 30 2 3 0x23) (ex_buffer 40 2 3 0x23) 1 21 2 1)"
    by (simp add: ex_build_def)
  have plan: "sosfilt_plan (ex_filter (ex_buffer 30 2 3 0x23) (ex_buffer 40 2 3 0x23) 1 21 2 1) =
     [biquad_process_f32 1 21 40 30 3, biquad_process_f32 6 23 40 40 3,
      biquad_process_f32 1 25 43 33 3, biquad_process_f32 6 27 43 43 3]"
    "sosfilt_plan (ex_filter (ex_buffer 30 2 3 0x23) (ex_buffer 40 2 3 0x23) 1 21 2 0) =
     [biquad_process_f32 1 21 40 30 3, biquad_process_f32 6 23 40 40 3,
      biquad_process_f32 11 25 43 33 3, biquad_process_f32 16 27 43 43 3]"
    by (simp_all add: sosfilt_plan_def section_call_def ex_filter_def ex_defs coeff_offset_def
        state_offset_def mul_u32_def SPARK_SOSFILT_SHARE_SOS_def upt_0_2 Let_def)
  show ?thesis
    using sosfilt_addressing [OF ok pre, of "ex_heap (replicate 50 one)"] plan by simp
qed

section \<open>Violated preconditions in a release build\<close>

text \<open>
  Claim C3. In a release build a failed validation makes \<open>spark_sosfilt_f32\<close> return
  at once, and a stage count of zero leaves nothing to do. A null coefficient pointer
  (or a null state pointer) is only asserted: with \<open>NDEBUG\<close> the loops run and the
  first section reads \<open>coeff[0]\<close> through the null pointer. The instance below is
  validated, has one channel, two frames, one stage, and a null coefficient pointer.
\<close>

lemma sosfilt_release_returns:
  assumes "NDEBUG cfg"
    and "spark_block_validate cfg (map_option header self) kernel_flags \<noteq> SPARK_NOERROR \<or>
         (\<exists>f. self = Some f \<and> n_stages f = 0)"
  shows "spark_sosfilt_f32 cfg self h = Returned h"
proof (cases "spark_block_validate cfg (map_option header self) kernel_flags = SPARK_NOERROR")
  case False
  then show ?thesis
    using assms(1) by (simp add: spark_sosfilt_f32_def kernel_flags_def [symmetric])
next
  case True
  then obtain f where f: "self = Some f" "n_stages f = 0"
    using assms(2) by auto
  have "sosfilt_plan f = []"
    by (simp add: sosfilt_plan_def f)
  then show ?thesis
    using sosfilt_plan_eq [of cfg f h] True assms(1) by (simp add: f)
qed

theorem sosfilt_null_coefficients:
  "spark_block_validate ex_build
     (Some (header (ex_filter (ex_buffer 8 1 2 0x23) (ex_buffer 8 1 2 0x23) NULL 6 1 0)))
     kernel_flags = SPARK_NOERROR \<and>
   spark_sosfilt_f32 ex_build
     (Some (ex_filter (ex_buffer 8 1 2 0x23) (ex_buffer 8 1 2 0x23) NULL 6 1 0))
     (ex_heap [one, zero False, zero False, zero False, zero False, zero False, zero False,
               one, two]) = Invalid_Access"
  by (simp add: spark_sosfilt_f32_def ex_filter_def ex_defs kernel_flags_def flag_defs status_defs
      spark_block_validate_def spark_buffer_is_similar_def spark_buffer_is_valid_def
      spark_buffer_check_type_def NULL_def SPARK_SOSFILT_SHARE_SOS_def chan_loop.simps
      stage_loop.simps biquad_process_f32_def load_def mul_u32_def)

end
